theory Spec2Isabelle
  imports Complex_Main "HOL-Library.Sublist" "HOL-Library.AList"
begin

section \<open>Python strings\<close>

text \<open>
  The document processor works on Python \<open>str\<close> values.  A text is modelled as a
  \<open>string\<close> whose characters stand for the code points 0..255; \<open>length\<close> is Python's
  \<open>len\<close>.  \<open>isspace\<close> is \<open>str.isspace\<close> on that range (it is also what \<open>\s\<close> matches in
  a \<open>str\<close> pattern), \<open>isdigit\<close> is what \<open>\d\<close> matches there.
\<close>

definition isspace :: "char \<Rightarrow> bool" where
  "isspace c = ((of_char c :: nat) \<in> {9, 10, 11, 12, 13, 28, 29, 30, 31, 32, 133, 160})"

definition isdigit :: "char \<Rightarrow> bool" where
  "isdigit c = (48 \<le> (of_char c :: nat) \<and> (of_char c :: nat) \<le> 57)"

definition lstrip :: "string \<Rightarrow> string" where
  "lstrip s = dropWhile isspace s"

definition rstrip :: "string \<Rightarrow> string" where
  "rstrip s = rev (dropWhile isspace (rev s))"

text \<open>\<open>s.strip()\<close>\<close>

definition strip :: "string \<Rightarrow> string" where
  "strip s = rstrip (lstrip s)"

text \<open>\<open>sep.join(xs)\<close>\<close>

fun join :: "string \<Rightarrow> string list \<Rightarrow> string" where
  "join sep [] = []"
| "join sep [x] = x"
| "join sep (x # y # ys) = x @ sep @ join sep (y # ys)"

text \<open>\<open>str(n)\<close> for a non-negative integer, and \<open>int(ds)\<close> for a string of digits.\<close>

definition digit_char :: "nat \<Rightarrow> char" where
  "digit_char d = ''0123456789'' ! d"

function str_nat :: "nat \<Rightarrow> string" where
  "str_nat n = (if n < 10 then [digit_char n] else str_nat (n div 10) @ [digit_char (n mod 10)])"
  by pat_completeness auto
termination
  by (relation "measure id") auto

declare str_nat.simps [simp del]

definition int_of_digits :: "string \<Rightarrow> nat" where
  "int_of_digits ds = foldl (\<lambda>a c. 10 * a + (of_char c - 48)) 0 ds"

text \<open>\<open>re.sub(r'\s+', ' ', s)\<close>: every maximal run of whitespace becomes one space.\<close>

function collapse_whitespace :: "string \<Rightarrow> string" where
  "collapse_whitespace [] = []"
| "collapse_whitespace (c # cs) =
     (if isspace c then CHR '' '' # collapse_whitespace (dropWhile isspace cs)
      else c # collapse_whitespace cs)"
  by pat_completeness auto
termination
  by (relation "measure length") (auto simp: less_Suc_eq_le length_dropWhile_le)

section \<open>The page marker\<close>

text \<open>
  \<open>re.match(r"Page (\d+):", chunk)\<close> succeeds when the chunk starts with \<open>Page\<close>, a space,
  a non-empty run of digits and a colon.  The run of digits is the longest one: the colon
  that has to follow is not a digit, so the greedy \<open>\d+\<close> never gives a digit back.  The
  result is the group of digits and the text after the colon.
\<close>

definition match_page_marker :: "string \<Rightarrow> (string \<times> string) option" where
  "match_page_marker s =
     (if prefix ''Page '' s then
        (let r = drop 5 s; ds = takeWhile isdigit r in
         if ds = [] then None
         else (case dropWhile isdigit r of
                 [] \<Rightarrow> None
               | c # rest \<Rightarrow> if c = CHR '':'' then Some (ds, rest) else None))
      else None)"

text \<open>\<open>r"Page \d+: "\<close>, the pattern of the substitution: the marker and one space.\<close>

definition match_marker_space :: "string \<Rightarrow> string option" where
  "match_marker_space s =
     (case match_page_marker s of
        None \<Rightarrow> None
      | Some (ds, rest) \<Rightarrow>
          (case rest of [] \<Rightarrow> None
           | c # rest' \<Rightarrow> if c = CHR '' '' then Some rest' else None))"

lemma match_page_marker_shorter:
  "match_page_marker s = Some (ds, rest) \<Longrightarrow> length rest < length s"
proof -
  assume m: "match_page_marker s = Some (ds, rest)"
  then have "dropWhile isdigit (drop 5 s) = CHR '':'' # rest"
    by (auto simp: match_page_marker_def Let_def split: if_splits list.splits)
  then have "length (CHR '':'' # rest) \<le> length (drop 5 s)"
    using length_dropWhile_le [of isdigit "drop 5 s"] by simp
  then show ?thesis by simp
qed

lemma match_marker_space_shorter:
  "match_marker_space s = Some rest \<Longrightarrow> length rest < length s"
  by (auto simp: match_marker_space_def split: option.splits list.splits if_splits
           dest: match_page_marker_shorter)

text \<open>
  \<open>re.sub(r"Page \d+: ", "", chunk)\<close>: scanning from the left, every match of the pattern is
  deleted and the scan goes on after it; a character at which no match starts is kept.
\<close>

function re_sub_marker :: "string \<Rightarrow> string" where
  "re_sub_marker [] = []"
| "re_sub_marker (c # cs) =
     (case match_marker_space (c # cs) of
        Some rest \<Rightarrow> re_sub_marker rest
      | None \<Rightarrow> c # re_sub_marker cs)"
  by pat_completeness auto
termination
  by (relation "measure length") (auto dest: match_marker_space_shorter)

section \<open>The text splitter\<close>

text \<open>
  \<open>create_document_chunks\<close> builds a \<open>RecursiveCharacterTextSplitter\<close> of the langchain
  library with \<open>length_function=len\<close> and the separators below, and calls its
  \<open>split_text\<close>.  The class is not part of this repository; what follows transcribes the
  library's algorithm for the options the source leaves at their defaults
  (\<open>keep_separator=True\<close>, \<open>is_separator_regex=False\<close>, \<open>strip_whitespace=True\<close>).
  Sizes are natural numbers: the constructor rejects a chunk size that is not positive and
  an overlap that is negative or larger than the chunk size.
\<close>

definition separators :: "string list" where
  "separators = [[CHR 0x0A, CHR 0x0A], [CHR 0x0A], ''. '', '' '', '''']"

text \<open>\<open>re.search(re.escape(sep), text)\<close>: the separator occurs in the text.\<close>

fun contains :: "string \<Rightarrow> string \<Rightarrow> bool" where
  "contains sep [] = (sep = [])"
| "contains sep (c # cs) = (prefix sep (c # cs) \<or> contains sep cs)"

text \<open>
  The texts between the occurrences of a non-empty separator, found from the left without
  overlap (\<open>re.split\<close> on the escaped separator).
\<close>

function split_on :: "string \<Rightarrow> string \<Rightarrow> string list" where
  "split_on sep [] = [[]]"
| "split_on sep (c # cs) =
     (if sep \<noteq> [] \<and> prefix sep (c # cs) then [] # split_on sep (drop (length sep) (c # cs))
      else (case split_on sep cs of
              [] \<Rightarrow> [[c]]
            | p # ps \<Rightarrow> (c # p) # ps))"
  by pat_completeness auto
termination
  by (relation "measure (\<lambda>(sep, s). length s)") (auto simp: neq_Nil_conv)

text \<open>
  \<open>_split_text_with_regex(text, separator, keep_separator=True)\<close>: each separator is kept
  at the start of the piece that follows it; an empty separator splits into characters;
  empty pieces are dropped.
\<close>

definition split_text_with_regex :: "string \<Rightarrow> string \<Rightarrow> string list" where
  "split_text_with_regex text separator =
     filter (\<lambda>s. s \<noteq> [])
       (if separator \<noteq> [] then
          (case split_on separator text of
             [] \<Rightarrow> []
           | t0 # ts \<Rightarrow> t0 # map (\<lambda>t. separator @ t) ts)
        else map (\<lambda>c. [c]) text)"

text \<open>\<open>_join_docs\<close>: the joined pieces, stripped; nothing when that is empty.\<close>

definition join_docs :: "string list \<Rightarrow> string \<Rightarrow> string option" where
  "join_docs docs separator =
     (let text = strip (join separator docs) in if text = [] then None else Some text)"

definition emit :: "string list \<Rightarrow> string \<Rightarrow> string list" where
  "emit docs separator = (case join_docs docs separator of None \<Rightarrow> [] | Some doc \<Rightarrow> [doc])"

text \<open>
  The inner \<open>while\<close> of \<open>_merge_splits\<close>: pieces are popped from the front of
  \<open>current_doc\<close> while the running total exceeds the overlap, or while the next piece
  does not fit and something is left.  \<open>tot\<close> (the source's \<open>total\<close>) is the length of the joined
  \<open>current_doc\<close> throughout (lemma \<open>merge_loop_total\<close> below), so the loop never reads
  \<open>current_doc[0]\<close> of an empty list; the model stops there.
\<close>

fun pop_loop :: "nat \<Rightarrow> nat \<Rightarrow> nat \<Rightarrow> nat \<Rightarrow> string list \<Rightarrow> nat \<Rightarrow> string list \<times> nat" where
  "pop_loop chunk_size chunk_overlap separator_len len [] tot = ([], tot)"
| "pop_loop chunk_size chunk_overlap separator_len len (x # xs) tot =
     (if tot > chunk_overlap \<or>
         (tot + len + separator_len > chunk_size \<and> tot > 0)
      then pop_loop chunk_size chunk_overlap separator_len len xs
             (tot - (length x + (if xs \<noteq> [] then separator_len else 0)))
      else (x # xs, tot))"

text \<open>
  One iteration of the \<open>for d in splits\<close> loop of \<open>_merge_splits\<close>, on the state
  \<open>current_doc\<close> and \<open>tot\<close> (the source's \<open>total\<close>): the documents appended to
  \<open>docs\<close> and the new state.  When the piece does not fit, the current document is
  emitted and pieces are popped before the new one is appended.
\<close>

definition merge_step ::
  "nat \<Rightarrow> nat \<Rightarrow> string \<Rightarrow> string \<Rightarrow> string list \<Rightarrow> nat \<Rightarrow> string list \<times> string list \<times> nat" where
  "merge_step chunk_size chunk_overlap separator d current_doc tot =
     (let len = length d; separator_len = length separator in
      if tot + len + (if current_doc \<noteq> [] then separator_len else 0) > chunk_size
         \<and> current_doc \<noteq> []
      then
        (case pop_loop chunk_size chunk_overlap separator_len len current_doc tot of
           (current_doc', tot') \<Rightarrow>
             (emit current_doc separator, current_doc' @ [d],
              tot' + len + (if current_doc' \<noteq> [] then separator_len else 0)))
      else
        ([], current_doc @ [d], tot + len + (if current_doc \<noteq> [] then separator_len else 0)))"

text \<open>
  The whole loop over the remaining pieces and the final \<open>_join_docs\<close>: what is
  appended to \<open>docs\<close> from here on.
\<close>

fun merge_loop :: "nat \<Rightarrow> nat \<Rightarrow> string \<Rightarrow> string list \<Rightarrow> string list \<Rightarrow> nat \<Rightarrow> string list" where
  "merge_loop chunk_size chunk_overlap separator [] current_doc tot =
     emit current_doc separator"
| "merge_loop chunk_size chunk_overlap separator (d # ds) current_doc tot =
     (case merge_step chunk_size chunk_overlap separator d current_doc tot of
        (docs, current_doc', tot') \<Rightarrow>
          docs @ merge_loop chunk_size chunk_overlap separator ds current_doc' tot')"

definition merge_splits :: "nat \<Rightarrow> nat \<Rightarrow> string list \<Rightarrow> string \<Rightarrow> string list" where
  "merge_splits chunk_size chunk_overlap splits separator =
     merge_loop chunk_size chunk_overlap separator splits [] 0"

text \<open>
  The \<open>for s in splits\<close> loop of \<open>_split_text\<close>.  \<open>good_splits\<close> collects the pieces
  shorter than the chunk size; a longer piece flushes them through \<open>_merge_splits\<close>
  (with the empty separator, since separators are kept in the pieces) and is split again
  with the remaining separators, or emitted as it is when none remains
  (\<open>recurse = None\<close>).
\<close>

fun process_splits ::
  "nat \<Rightarrow> nat \<Rightarrow> (string \<Rightarrow> string list) option \<Rightarrow> string list \<Rightarrow> string list \<Rightarrow> string list" where
  "process_splits chunk_size chunk_overlap recurse good_splits [] =
     (if good_splits \<noteq> [] then merge_splits chunk_size chunk_overlap good_splits [] else [])"
| "process_splits chunk_size chunk_overlap recurse good_splits (s # ss) =
     (if length s < chunk_size
      then process_splits chunk_size chunk_overlap recurse (good_splits @ [s]) ss
      else
        (if good_splits \<noteq> [] then merge_splits chunk_size chunk_overlap good_splits [] else []) @
        (case recurse of None \<Rightarrow> [s] | Some other \<Rightarrow> other s) @
        process_splits chunk_size chunk_overlap recurse [] ss)"

text \<open>
  \<open>_split_text(text, separators)\<close>.  The first separator that is empty or occurs in the
  text is used, the ones after it are the \<open>new_separators\<close> of the recursive calls; when
  none occurs the last one is used and nothing remains.  The library never calls it with
  an empty list of separators.
\<close>

fun split_text_rec :: "nat \<Rightarrow> nat \<Rightarrow> string list \<Rightarrow> string \<Rightarrow> string list" where
  "split_text_rec chunk_size chunk_overlap [] text = []"
| "split_text_rec chunk_size chunk_overlap (s # new_separators) text =
     (if s = [] then
        process_splits chunk_size chunk_overlap None [] (split_text_with_regex text s)
      else if contains s text then
        process_splits chunk_size chunk_overlap
          (if new_separators = [] then None
           else Some (\<lambda>piece. split_text_rec chunk_size chunk_overlap new_separators piece))
          [] (split_text_with_regex text s)
      else if new_separators = [] then
        process_splits chunk_size chunk_overlap None [] (split_text_with_regex text s)
      else split_text_rec chunk_size chunk_overlap new_separators text)"

definition split_text :: "nat \<Rightarrow> nat \<Rightarrow> string \<Rightarrow> string list" where
  "split_text chunk_size chunk_overlap text =
     split_text_rec chunk_size chunk_overlap separators text"

section \<open>Documents and their metadata\<close>

text \<open>
  A metadata value is a string, an integer (a page number, a chunk index, a page count:
  never negative) or \<open>None\<close>.  A \<open>dict\<close> is an association list in insertion order:
  storing under a key that is present replaces the value in place, a new key goes to the
  end, which is what \<open>AList.update\<close> does.
\<close>

datatype pyval = PNone | PStr string | PInt nat

type_synonym dict = "(string \<times> pyval) list"

datatype error =
    FileNotFoundError string
  | ValueError string
  | KeyError string
  | OSError string
  | ParserError string

text \<open>langchain's \<open>Document(page_content=..., metadata=...)\<close>.\<close>

record Document =
  page_content :: string
  metadata :: dict

text \<open>
  An entry of \<open>all_text\<close>: \<open>{"page": n, "text": t}\<close>; the field \<open>page_text\<close> is the
  value under \<open>"text"\<close>.
\<close>

record raw_page =
  page :: nat
  page_text :: string

text \<open>\<open>d[k]\<close>, \<open>d.get(k, default)\<close> and \<open>{**d, **e}\<close>.\<close>

definition dict_item :: "dict \<Rightarrow> string \<Rightarrow> error + pyval" where
  "dict_item d k = (case map_of d k of None \<Rightarrow> Inl (KeyError k) | Some v \<Rightarrow> Inr v)"

definition dict_get :: "dict \<Rightarrow> string \<Rightarrow> pyval \<Rightarrow> pyval" where
  "dict_get d k dflt = (case map_of d k of None \<Rightarrow> dflt | Some v \<Rightarrow> v)"

definition dict_merge :: "dict \<Rightarrow> dict \<Rightarrow> dict" where
  "dict_merge d e = foldl (\<lambda>acc (k, v). AList.update k v acc) d e"

section \<open>create_document_chunks\<close>

text \<open>
  The constructor of the splitter raises \<open>ValueError\<close> for a chunk size that is not
  positive and for an overlap larger than the chunk size.
\<close>

definition RecursiveCharacterTextSplitter :: "nat \<Rightarrow> nat \<Rightarrow> error option" where
  "RecursiveCharacterTextSplitter chunk_size chunk_overlap =
     (if chunk_size = 0 then Some (ValueError ''chunk_size must be > 0'')
      else if chunk_overlap > chunk_size then Some (ValueError ''Got a larger chunk overlap than chunk size'')
      else None)"

text \<open>\<open>f"Page {page_info['page']}: {page_info['text']}"\<close>\<close>

definition page_line :: "raw_page \<Rightarrow> string" where
  "page_line page_info = ''Page '' @ str_nat (page page_info) @ '': '' @ page_text page_info"

definition combined_text :: "raw_page list \<Rightarrow> string" where
  "combined_text all_text = join [CHR 0x0A, CHR 0x0A] (map page_line all_text)"

text \<open>
  The page number of a chunk: the digits of a marker at its very start, and 0 when the
  chunk does not start with a marker.
\<close>

definition page_num_of :: "string \<Rightarrow> nat" where
  "page_num_of chunk =
     (case match_page_marker chunk of Some (ds, rest) \<Rightarrow> int_of_digits ds | None \<Rightarrow> 0)"

text \<open>The body of the loop over \<open>enumerate(chunks)\<close>: the document of chunk \<open>i\<close>.\<close>

definition make_document :: "dict \<Rightarrow> nat \<Rightarrow> string \<Rightarrow> error + Document" where
  "make_document doc_metadata i chunk =
     (case dict_item doc_metadata ''file_name'' of
        Inl e \<Rightarrow> Inl e
      | Inr source \<Rightarrow>
          Inr \<lparr>page_content = re_sub_marker chunk,
               metadata = dict_merge
                 [(''page'', PInt (page_num_of chunk)), (''chunk'', PInt (i + 1)), (''source'', source)]
                 doc_metadata\<rparr>)"

fun make_documents :: "dict \<Rightarrow> nat \<Rightarrow> string list \<Rightarrow> error + Document list" where
  "make_documents doc_metadata i [] = Inr []"
| "make_documents doc_metadata i (chunk # chunks) =
     (case make_document doc_metadata i chunk of
        Inl e \<Rightarrow> Inl e
      | Inr doc \<Rightarrow>
          (case make_documents doc_metadata (i + 1) chunks of
             Inl e \<Rightarrow> Inl e
           | Inr documents \<Rightarrow> Inr (doc # documents)))"

definition create_document_chunks :: "raw_page list \<Rightarrow> dict \<Rightarrow> nat \<Rightarrow> nat \<Rightarrow> error + Document list" where
  "create_document_chunks all_text doc_metadata chunk_size chunk_overlap =
     (case RecursiveCharacterTextSplitter chunk_size chunk_overlap of
        Some e \<Rightarrow> Inl e
      | None \<Rightarrow>
          make_documents doc_metadata 0
            (split_text chunk_size chunk_overlap (combined_text all_text)))"

section \<open>The file system and the format parsers\<close>

text \<open>
  The extractors read a file through a format parser (PyMuPDF's \<open>fitz.open\<close>,
  python-docx's \<open>docx.Document\<close>).  The parsers are parameters of the model: each
  maps the bytes of a file to the parsed document or to the exception it raises.  The
  world is the content of the files and the list of the paths handed to a parser so far.
\<close>

text \<open>
  A block of \<open>page.get_text("blocks")\<close>: of the tuple only \<open>b[1]\<close>, its vertical position,
  and \<open>b[4]\<close>, its content, are read.
\<close>

record block =
  y0 :: real
  content :: pyval

record pdf_doc =
  pdf_metadata :: dict
  pdf_pages :: "block list list"

text \<open>
  Of a DOCX: the core properties read, the text of each body paragraph, and the text of
  each cell of each row of each table.
\<close>

record docx_doc =
  title :: pyval
  author :: pyval
  subject :: pyval
  paragraphs :: "string list"
  tables :: "string list list list"

record parsers =
  fitz_open :: "string \<Rightarrow> error + pdf_doc"
  docx_Document :: "string \<Rightarrow> error + docx_doc"
  temp_stem :: string

record world =
  files :: "string \<rightharpoonup> string"
  opened :: "string list"

text \<open>\<open>os.path.basename\<close>\<close>

definition basename :: "string \<Rightarrow> string" where
  "basename p = rev (takeWhile (\<lambda>c. c \<noteq> CHR ''/'') (rev p))"

section \<open>extract_text_from_pdf\<close>

text \<open>\<open>[block[4] for block in text_blocks if isinstance(block[4], str)]\<close>\<close>

fun block_texts :: "block list \<Rightarrow> string list" where
  "block_texts [] = []"
| "block_texts (b # bs) =
     (case content b of PStr s \<Rightarrow> s # block_texts bs | _ \<Rightarrow> block_texts bs)"

text \<open>
  The text of a page: the blocks sorted by \<open>b[1]\<close> (a stable sort), the strings among
  their contents joined by a newline, whitespace collapsed, stripped.
\<close>

definition pdf_page_text :: "block list \<Rightarrow> string" where
  "pdf_page_text text_blocks =
     strip (collapse_whitespace (join [CHR 0x0A] (block_texts (sort_key y0 text_blocks))))"

text \<open>The loop over \<open>enumerate(doc)\<close>; a page without text adds nothing.\<close>

fun pdf_all_text :: "nat \<Rightarrow> block list list \<Rightarrow> raw_page list" where
  "pdf_all_text page_num [] = []"
| "pdf_all_text page_num (p # ps) =
     (if pdf_page_text p \<noteq> []
      then \<lparr>page = page_num + 1, page_text = pdf_page_text p\<rparr> # pdf_all_text (page_num + 1) ps
      else pdf_all_text (page_num + 1) ps)"

definition pdf_doc_metadata :: "pdf_doc \<Rightarrow> string \<Rightarrow> dict" where
  "pdf_doc_metadata doc pdf_path =
     [(''title'', dict_get (pdf_metadata doc) ''title'' (PStr [])),
      (''author'', dict_get (pdf_metadata doc) ''author'' (PStr [])),
      (''subject'', dict_get (pdf_metadata doc) ''subject'' (PStr [])),
      (''creator'', dict_get (pdf_metadata doc) ''creator'' (PStr [])),
      (''producer'', dict_get (pdf_metadata doc) ''producer'' (PStr [])),
      (''total_pages'', PInt (length (pdf_pages doc))),
      (''file_name'', PStr (basename pdf_path)),
      (''file_type'', PStr ''pdf'')]"

text \<open>
  A missing file raises \<open>FileNotFoundError\<close>; an exception of the parser or of the
  chunking is logged and raised again; a document without any text is an empty list.
\<close>

definition extract_text_from_pdf ::
  "parsers \<Rightarrow> world \<Rightarrow> string \<Rightarrow> nat \<Rightarrow> nat \<Rightarrow> (error + Document list) \<times> world" where
  "extract_text_from_pdf lib w pdf_path chunk_size chunk_overlap =
     (case files w pdf_path of
        None \<Rightarrow> (Inl (FileNotFoundError (''PDF file not found: '' @ pdf_path)), w)
      | Some bytes \<Rightarrow>
          (let w' = w\<lparr>opened := opened w @ [pdf_path]\<rparr> in
           case fitz_open lib bytes of
             Inl e \<Rightarrow> (Inl e, w')
           | Inr doc \<Rightarrow>
               (let all_text = pdf_all_text 0 (pdf_pages doc) in
                if all_text = [] then (Inr [], w')
                else (create_document_chunks all_text (pdf_doc_metadata doc pdf_path)
                        chunk_size chunk_overlap, w'))))"

section \<open>extract_text_from_docx\<close>

text \<open>\<open>x or ""\<close>\<close>

definition or_empty :: "pyval \<Rightarrow> pyval" where
  "or_empty x = (if x = PNone \<or> x = PStr [] \<or> x = PInt 0 then PStr [] else x)"

definition docx_doc_metadata :: "docx_doc \<Rightarrow> string \<Rightarrow> dict" where
  "docx_doc_metadata doc docx_path =
     [(''title'', or_empty (title doc)),
      (''author'', or_empty (author doc)),
      (''subject'', or_empty (subject doc)),
      (''file_name'', PStr (basename docx_path)),
      (''file_type'', PStr ''docx'')]"

text \<open>
  \<open>paragraphs_text\<close>: the stripped text of every paragraph, then of every table cell,
  that is not blank.
\<close>

definition stripped_nonblank :: "string list \<Rightarrow> string list" where
  "stripped_nonblank ts = map strip (filter (\<lambda>t. strip t \<noteq> []) ts)"

definition paragraphs_text :: "docx_doc \<Rightarrow> string list" where
  "paragraphs_text doc =
     stripped_nonblank (paragraphs doc) @ stripped_nonblank (concat (concat (tables doc)))"


text \<open>
  The loop over \<open>paragraphs_text\<close> with the state \<open>current_page_text\<close>,
  \<open>current_page\<close>, and the final page of what is left.  A paragraph and a blank line
  are appended; once the buffer is longer than the threshold it becomes a page.
\<close>

fun docx_all_text :: "nat \<Rightarrow> string \<Rightarrow> nat \<Rightarrow> string list \<Rightarrow> raw_page list" where
  "docx_all_text threshold current_page_text current_page [] =
     (if strip current_page_text \<noteq> []
      then [\<lparr>page = current_page, page_text = strip current_page_text\<rparr>] else [])"
| "docx_all_text threshold current_page_text current_page (para # paras) =
     (if length (current_page_text @ para @ [CHR 0x0A, CHR 0x0A]) > threshold
      then \<lparr>page = current_page, page_text = strip (current_page_text @ para @ [CHR 0x0A, CHR 0x0A])\<rparr>
             # docx_all_text threshold [] (current_page + 1) paras
      else docx_all_text threshold (current_page_text @ para @ [CHR 0x0A, CHR 0x0A])
             current_page paras)"

definition extract_text_from_docx ::
  "nat \<Rightarrow> parsers \<Rightarrow> world \<Rightarrow> string \<Rightarrow> nat \<Rightarrow> nat \<Rightarrow> (error + Document list) \<times> world" where
  "extract_text_from_docx threshold lib w docx_path chunk_size chunk_overlap =
     (case files w docx_path of
        None \<Rightarrow> (Inl (FileNotFoundError (''DOCX file not found: '' @ docx_path)), w)
      | Some bytes \<Rightarrow>
          (let w' = w\<lparr>opened := opened w @ [docx_path]\<rparr> in
           case docx_Document lib bytes of
             Inl e \<Rightarrow> (Inl e, w')
           | Inr doc \<Rightarrow>
               if paragraphs_text doc = [] then (Inr [], w')
               else (create_document_chunks
                       (docx_all_text threshold [] 1 (paragraphs_text doc))
                       (docx_doc_metadata doc docx_path) chunk_size chunk_overlap, w')))"

section \<open>process_document_from_bytes\<close>

text \<open>\<open>str.lower\<close> on the code points 0..255, and \<open>os.path.splitext\<close>.\<close>

definition lower_char :: "char \<Rightarrow> char" where
  "lower_char c =
     (let n = (of_char c :: nat) in
      if (65 \<le> n \<and> n \<le> 90) \<or> (192 \<le> n \<and> n \<le> 222 \<and> n \<noteq> 215) then char_of (n + 32) else c)"

definition lower :: "string \<Rightarrow> string" where
  "lower s = map lower_char s"

text \<open>
  The extension starts at the last dot of the last path component, provided a character
  other than a dot comes before it in that component; otherwise it is empty.
\<close>

definition splitext :: "string \<Rightarrow> string \<times> string" where
  "splitext p =
     (let base = basename p;
          after_dot = rev (takeWhile (\<lambda>c. c \<noteq> CHR ''.'') (rev base));
          before_dot = take (length base - length after_dot - 1) base
      in if CHR ''.'' \<in> set base \<and> (\<exists>c \<in> set before_dot. c \<noteq> CHR ''.'')
         then (take (length p - length after_dot - 1) p, CHR ''.'' # after_dot)
         else (p, []))"

text \<open>
  The number of bytes of a string as a file name (UTF-8: one byte below \<open>0x80\<close>, two
  from there to \<open>0xFF\<close>).
\<close>

definition fsencode_length :: "string \<Rightarrow> nat" where
  "fsencode_length s = sum_list (map (\<lambda>c. if (of_char c :: nat) < 128 then 1 else 2) s)"

text \<open>
  The scratch file: \<open>NamedTemporaryFile(suffix=file_ext, delete=False)\<close> opens a new
  file in the directory for temporary files.  Its name is \<open>tmp\<close>, eight characters
  chosen by the library and the suffix; \<open>temp_stem\<close> is the path up to the suffix.
  \<open>os.open\<close> refuses a path with a NUL character (\<open>ValueError\<close>), and the system
  refuses a file name of more than 255 bytes (\<open>OSError\<close>, \<open>ENAMETOOLONG\<close>, on a POSIX
  system); of that exception the message of the system is kept, not the path it also
  carries.  Otherwise the file is taken to be created, and written without error: the
  directory exists, is writable and has room.
\<close>

definition NamedTemporaryFile :: "parsers \<Rightarrow> string \<Rightarrow> error + string" where
  "NamedTemporaryFile lib file_suffix =
     (if CHR 0x00 \<in> set file_suffix then Inl (ValueError ''embedded null byte'')
      else if 255 < 11 + fsencode_length file_suffix then Inl (OSError ''File name too long'')
      else Inr (temp_stem lib @ file_suffix))"

text \<open>The last loop: \<open>source\<close> and \<open>file_name\<close> become the original file name.\<close>

definition set_source :: "string \<Rightarrow> Document \<Rightarrow> Document" where
  "set_source filename doc =
     doc\<lparr>metadata :=
           AList.update ''file_name'' (PStr filename)
             (AList.update ''source'' (PStr filename) (metadata doc))\<rparr>"

text \<open>\<open>chunk_size=1000\<close>, \<open>chunk_overlap=100\<close>: an argument left out is \<open>None\<close>.\<close>

definition arg_or :: "'a option \<Rightarrow> 'a \<Rightarrow> 'a" where
  "arg_or given dflt = (case given of None \<Rightarrow> dflt | Some x \<Rightarrow> x)"

text \<open>
  The dispatch on the extension runs in a \<open>try\<close> whose \<open>finally\<close> removes the scratch
  file, whatever the outcome.  The scratch file is created before the \<open>try\<close>: when that
  raises, nothing else is done.
\<close>

definition dispatch ::
  "nat \<Rightarrow> parsers \<Rightarrow> world \<Rightarrow> string \<Rightarrow> string \<Rightarrow> nat \<Rightarrow> nat \<Rightarrow> (error + Document list) \<times> world" where
  "dispatch threshold lib w file_ext temp_path chunk_size chunk_overlap =
     (if file_ext = ''.pdf'' then extract_text_from_pdf lib w temp_path chunk_size chunk_overlap
      else if file_ext \<in> {''.docx'', ''.doc''}
      then extract_text_from_docx threshold lib w temp_path chunk_size chunk_overlap
      else (Inl (ValueError (''Unsupported document type: '' @ file_ext)), w))"

definition process_document_from_bytes ::
  "nat \<Rightarrow> parsers \<Rightarrow> world \<Rightarrow> string \<Rightarrow> string \<Rightarrow> nat option \<Rightarrow> nat option
     \<Rightarrow> (error + Document list) \<times> world" where
  "process_document_from_bytes threshold lib w doc_bytes filename chunk_size chunk_overlap =
     (let file_ext = snd (splitext (lower filename)) in
      case NamedTemporaryFile lib file_ext of
        Inl e \<Rightarrow> (Inl e, w)
      | Inr temp_path \<Rightarrow>
          (let w1 = w\<lparr>files := (files w)(temp_path \<mapsto> doc_bytes)\<rparr>;
               r = dispatch threshold lib w1 file_ext temp_path
                     (arg_or chunk_size 1000) (arg_or chunk_overlap 100);
               w2 = snd r
           in (case fst r of
                 Inl e \<Rightarrow> Inl e
               | Inr documents \<Rightarrow> Inr (map (set_source filename) documents),
               w2\<lparr>files := (files w2)(temp_path := None)\<rparr>)))"

section \<open>process_pdf_from_bytes\<close>

definition process_pdf_from_bytes ::
  "nat \<Rightarrow> parsers \<Rightarrow> world \<Rightarrow> string \<Rightarrow> string option \<Rightarrow> nat option \<Rightarrow> nat option
     \<Rightarrow> (error + Document list) \<times> world" where
  "process_pdf_from_bytes threshold lib w pdf_bytes filename chunk_size chunk_overlap =
     process_document_from_bytes threshold lib w pdf_bytes (arg_or filename ''document.pdf'')
       (Some (arg_or chunk_size 1000)) (Some (arg_or chunk_overlap 100))"

section \<open>Reading the results\<close>

text \<open>
  The chunk index and the page of a returned document are the values under the keys
  \<open>chunk\<close> and \<open>page\<close> of its metadata.  A document metadata that has none of the keys
  \<open>page\<close>, \<open>chunk\<close>, \<open>source\<close> does not override them in
  \<open>{"page": ..., "chunk": ..., "source": ..., **metadata}\<close>; the metadata built by the two
  extractors is of that kind.
\<close>

definition pipeline_metadata :: "dict \<Rightarrow> bool" where
  "pipeline_metadata md =
     (''page'' \<notin> fst ` set md \<and> ''chunk'' \<notin> fst ` set md \<and> ''source'' \<notin> fst ` set md)"

definition chunk_index :: "Document \<Rightarrow> pyval option" where
  "chunk_index doc = map_of (metadata doc) ''chunk''"

definition page_of :: "Document \<Rightarrow> pyval option" where
  "page_of doc = map_of (metadata doc) ''page''"

section \<open>Example documents\<close>

definition sample_metadata :: dict where
  "sample_metadata = [(''title'', PStr ''T''), (''file_name'', PStr ''tmpab.pdf''), (''file_type'', PStr ''pdf'')]"

definition sample_pages :: "raw_page list" where
  "sample_pages = [\<lparr>page = 1, page_text = ''aa''\<rparr>, \<lparr>page = 2, page_text = ''bbbb cccc dddd eeee''\<rparr>]"

definition sample_pdf :: pdf_doc where
  "sample_pdf = \<lparr>pdf_metadata = [(''title'', PStr ''T'')],
                  pdf_pages = [[\<lparr>y0 = 2, content = PStr ''world.''\<rparr>, \<lparr>y0 = 1, content = PStr ''Hello''\<rparr>],
                               [],
                               [\<lparr>y0 = 1, content = PStr ''Goodbye.''\<rparr>]]\<rparr>"

definition sample_docx :: docx_doc where
  "sample_docx = \<lparr>title = PNone, author = PStr ''me'', subject = PStr [],
                   paragraphs = ['' one '', '' '', ''two''], tables = [[[''c1'', []], [''c2'']]]\<rparr>"

definition sample_parsers :: parsers where
  "sample_parsers =
     \<lparr>fitz_open = (\<lambda>bytes. if bytes = ''%PDF'' then Inr sample_pdf else Inl (ParserError ''no PDF'')),
      docx_Document = (\<lambda>bytes. if bytes = ''PK'' then Inr sample_docx else Inl (ParserError ''no DOCX'')),
      temp_stem = ''/tmp/tmpq1''\<rparr>"

definition empty_world :: world where
  "empty_world = \<lparr>files = Map.empty, opened = []\<rparr>"

text \<open>What the pipeline returns for the examples (lemmas \<open>sample_chunks_run\<close>, \<open>sample_pdf_run\<close>).\<close>

definition sample_chunks :: "Document list" where
  "sample_chunks =
     [\<lparr>page_content = ''aa'', metadata = [(''page'', PInt 1), (''chunk'', PInt 1), (''source'', PStr ''tmpab.pdf''), (''title'', PStr ''T''), (''file_name'', PStr ''tmpab.pdf''), (''file_type'', PStr ''pdf'')]\<rparr>,
      \<lparr>page_content = ''Page 2:'', metadata = [(''page'', PInt 2), (''chunk'', PInt 2), (''source'', PStr ''tmpab.pdf''), (''title'', PStr ''T''), (''file_name'', PStr ''tmpab.pdf''), (''file_type'', PStr ''pdf'')]\<rparr>,
      \<lparr>page_content = ''bbbb cccc'', metadata = [(''page'', PInt 0), (''chunk'', PInt 3), (''source'', PStr ''tmpab.pdf''), (''title'', PStr ''T''), (''file_name'', PStr ''tmpab.pdf''), (''file_type'', PStr ''pdf'')]\<rparr>,
      \<lparr>page_content = ''dddd eeee'', metadata = [(''page'', PInt 0), (''chunk'', PInt 4), (''source'', PStr ''tmpab.pdf''), (''title'', PStr ''T''), (''file_name'', PStr ''tmpab.pdf''), (''file_type'', PStr ''pdf'')]\<rparr>]"

definition sample_pdf_chunks :: "Document list" where
  "sample_pdf_chunks =
     [\<lparr>page_content = ''Hello world.'' @ [CHR 0x0A, CHR 0x0A] @ ''Goodbye.'',
       metadata = [(''page'', PInt 1), (''chunk'', PInt 1), (''source'', PStr ''x.PDF''), (''title'', PStr ''T''),
          (''author'', PStr []), (''subject'', PStr []), (''creator'', PStr []), (''producer'', PStr []),
          (''total_pages'', PInt 3), (''file_name'', PStr ''x.PDF''), (''file_type'', PStr ''pdf'')]\<rparr>]"

definition scanned_pdf :: pdf_doc where
  "scanned_pdf = \<lparr>pdf_metadata = [],
                   pdf_pages = [[\<lparr>y0 = 10, content = PNone\<rparr>], [],
                                [\<lparr>y0 = 1, content = PStr [CHR '' '', CHR 0x0A]\<rparr>]]\<rparr>"

definition blank_docx :: docx_doc where
  "blank_docx = \<lparr>title = PNone, author = PNone, subject = PNone,
                  paragraphs = [[], ''  ''], tables = [[['' '']]]\<rparr>"

definition scan_parsers :: parsers where
  "scan_parsers = \<lparr>fitz_open = (\<lambda>bytes. Inr scanned_pdf),
                    docx_Document = (\<lambda>bytes. Inr blank_docx),
                    temp_stem = ''/tmp/tmpq2''\<rparr>"

definition scan_world :: world where
  "scan_world = \<lparr>files = [''/in/scan'' \<mapsto> ''bytes''], opened = []\<rparr>"

definition second_run_parsers :: parsers where
  "second_run_parsers = sample_parsers\<lparr>temp_stem := ''/tmp/tmpzz9''\<rparr>"

text \<open>
  A piece starts with a marker, after its leading whitespace; the page number of that
  marker.
\<close>

definition starts_marked :: "string \<Rightarrow> bool" where
  "starts_marked p = (match_page_marker (lstrip p) \<noteq> None)"

text \<open>The page number that a piece with a leading marker carries.\<close>

definition piece_page :: "string \<Rightarrow> nat" where
  "piece_page p = page_num_of (lstrip p)"

text \<open>The page of a returned document as a number.\<close>

definition page_number :: "Document \<Rightarrow> nat" where
  "page_number doc = (case page_of doc of Some (PInt n) \<Rightarrow> n | _ \<Rightarrow> 0)"

text \<open>The example pages with chunk size 30 and overlap 5 (lemma \<open>fitting_chunks_run\<close>).\<close>

definition fitting_chunks :: "Document list" where
  "fitting_chunks =
     [\<lparr>page_content = ''aa'', metadata = [(''page'', PInt 1), (''chunk'', PInt 1), (''source'', PStr ''tmpab.pdf''), (''title'', PStr ''T''), (''file_name'', PStr ''tmpab.pdf''), (''file_type'', PStr ''pdf'')]\<rparr>,
      \<lparr>page_content = ''bbbb cccc dddd eeee'', metadata = [(''page'', PInt 2), (''chunk'', PInt 2), (''source'', PStr ''tmpab.pdf''), (''title'', PStr ''T''), (''file_name'', PStr ''tmpab.pdf''), (''file_type'', PStr ''pdf'')]\<rparr>]"



text \<open>What \<open>create_document_chunks\<close> returns for the pages of \<open>sample_docx\<close>.\<close>

definition sample_docx_chunks :: "Document list" where
  "sample_docx_chunks =
     [\<lparr>page_content = ''one'' @ [CHR 0x0A, CHR 0x0A] @ ''two'' @ [CHR 0x0A, CHR 0x0A] @ ''c1'' @ [CHR 0x0A, CHR 0x0A] @ ''c2'',
       metadata = [(''page'', PInt 1), (''chunk'', PInt 1), (''source'', PStr ''tmpq1.docx''),
                   (''title'', PStr []), (''author'', PStr ''me''), (''subject'', PStr []),
                   (''file_name'', PStr ''tmpq1.docx''), (''file_type'', PStr ''docx'')]\<rparr>]"

text \<open>
  A text has an occurrence of the pattern \<open>Page \d+: \<close> of the substitution, at some
  position.
\<close>

fun contains_marker :: "string \<Rightarrow> bool" where
  "contains_marker [] = False"
| "contains_marker (c # cs) = (match_marker_space (c # cs) \<noteq> None \<or> contains_marker cs)"



text \<open>A text with all its whitespace removed: the coarsest comparison up to whitespace.\<close>

definition without_space :: "string \<Rightarrow> string" where
  "without_space s = filter (\<lambda>c. \<not> isspace c) s"

text \<open>
  Two file names with an extension that is none of the three: one has a NUL character in
  it, the other is 301 characters long.
\<close>

definition nul_name :: string where
  "nul_name = ''a.b'' @ [CHR 0x00] @ ''c''"

definition long_name :: string where
  "long_name = ''x.'' @ replicate 300 (CHR ''a'')"









text \<open>
  The windows \<open>ws\<close> cover the list \<open>xs\<close> with overlaps, after a window \<open>prev\<close>: every
  window begins with elements that end the window before it (its first \<open>k\<close> elements,
  the overlap, possibly none) and goes on with the next elements of \<open>xs\<close>; no element
  of \<open>xs\<close> is left out, and none comes twice but in an overlap.
\<close>

fun covers :: "'a list \<Rightarrow> 'a list list \<Rightarrow> 'a list \<Rightarrow> bool" where
  "covers prev [] xs = (xs = [])"
| "covers prev (w # ws) xs =
     list_ex (\<lambda>k. suffix (take k w) prev \<and> prefix (drop k w) xs \<and>
                   covers w ws (drop (length w - k) xs))
       [0..<Suc (length w)]"



section \<open>Lengths of the pieces of the splitter\<close>

lemma join_empty_sep: "join [] xs = concat xs"
  by (induction "[]::string" xs rule: join.induct) simp_all

lemma length_lstrip: "length (lstrip s) \<le> length s"
  by (simp add: lstrip_def length_dropWhile_le)

lemma length_rstrip: "length (rstrip s) \<le> length s"
  using length_dropWhile_le [of isspace "rev s"] by (simp add: rstrip_def)

lemma length_strip: "length (strip s) \<le> length s"
  using length_rstrip [of "lstrip s"] length_lstrip [of s] by (simp add: strip_def)

lemma re_sub_marker_length: "length (re_sub_marker s) \<le> length s"
proof (induction s rule: re_sub_marker.induct)
  case 1
  show ?case by simp
next
  case (2 c cs)
  show ?case
  proof (cases "match_marker_space (c # cs)")
    case None
    with 2 show ?thesis by simp
  next
    case (Some rest)
    with 2 have "length (re_sub_marker rest) \<le> length rest" by simp
    moreover have "length rest < length (c # cs)"
      using Some by (rule match_marker_space_shorter)
    ultimately show ?thesis using Some by simp
  qed
qed

lemma set_emit: "c \<in> set (emit docs sep) \<Longrightarrow> c = strip (join sep docs) \<and> c \<noteq> []"
  by (auto simp: emit_def join_docs_def Let_def split: if_splits)

lemma merge_step_flush:
  assumes "cur \<noteq> []" and "cs < tot + length d + length sep"
      and "pop_loop cs co (length sep) (length d) cur tot = (cur', tot')"
  shows "merge_step cs co sep d cur tot =
           (emit cur sep, cur' @ [d], tot' + length d + (if cur' \<noteq> [] then length sep else 0))"
  using assms by (simp add: merge_step_def Let_def)

lemma merge_step_append:
  assumes "cur = [] \<or> \<not> cs < tot + length d + length sep"
  shows "merge_step cs co sep d cur tot =
           ([], cur @ [d], tot + length d + (if cur \<noteq> [] then length sep else 0))"
proof (cases "cur = []")
  case True
  then show ?thesis by (simp add: merge_step_def Let_def)
next
  case False
  with assms show ?thesis by (simp add: merge_step_def Let_def)
qed

lemma merge_step_out:
  "fst (merge_step cs co sep d cur tot) = [] \<or> fst (merge_step cs co sep d cur tot) = emit cur sep"
proof (cases "cur \<noteq> [] \<and> cs < tot + length d + length sep")
  case True
  obtain cur' tot' where "pop_loop cs co (length sep) (length d) cur tot = (cur', tot')"
    by (cases "pop_loop cs co (length sep) (length d) cur tot")
  with True have "merge_step cs co sep d cur tot =
           (emit cur sep, cur' @ [d], tot' + length d + (if cur' \<noteq> [] then length sep else 0))"
    by (intro merge_step_flush) simp_all
  then show ?thesis by simp
next
  case False
  then have "merge_step cs co sep d cur tot =
           ([], cur @ [d], tot + length d + (if cur \<noteq> [] then length sep else 0))"
    by (intro merge_step_append) blast
  then show ?thesis by simp
qed

lemma pop_loop_total:
  "sl = 0 \<Longrightarrow> tot = length (concat cur) \<Longrightarrow> pop_loop cs co sl len cur tot = (cur', tot') \<Longrightarrow>
     tot' = length (concat cur') \<and> (tot' + len \<le> cs \<or> tot' = 0)"
proof (induction cs co sl len cur tot rule: pop_loop.induct)
  case (1 cs co sl len tot)
  then show ?case by simp
next
  case (2 cs co sl len x xs tot)
  show ?case
  proof (cases "tot > co \<or> (tot + len + sl > cs \<and> tot > 0)")
    case True
    have a: "tot - (length x + (if xs \<noteq> [] then sl else 0)) = length (concat xs)"
      using "2.prems"(1,2) by simp
    have b: "pop_loop cs co sl len xs (tot - (length x + (if xs \<noteq> [] then sl else 0))) = (cur', tot')"
      using "2.prems"(3) True by (simp del: length_0_conv split: if_splits)
    show ?thesis using "2.IH" [OF True "2.prems"(1) a b] .
  next
    case False
    then have "cur' = x # xs" "tot' = tot" using "2.prems"(3) by (auto split: if_splits)
    moreover have "tot + len \<le> cs \<or> tot = 0" using False "2.prems"(1) by arith
    ultimately show ?thesis using "2.prems"(2) by blast
  qed
qed

lemma merge_loop_bound:
  "\<forall>d\<in>set ds. length d \<le> cs \<Longrightarrow> tot = length (concat cur) \<Longrightarrow> tot \<le> cs \<Longrightarrow>
     \<forall>c\<in>set (merge_loop cs co [] ds cur tot). length c \<le> cs"
proof (induction ds arbitrary: cur tot)
  case Nil
  then show ?case
    using length_strip [of "concat cur"] by (auto dest!: set_emit simp: join_empty_sep)
next
  case (Cons d ds)
  have d: "length d \<le> cs" using Cons.prems by simp
  have emit_ok: "\<forall>c\<in>set (emit cur []). length c \<le> cs"
    using length_strip [of "concat cur"] Cons.prems by (auto dest!: set_emit simp: join_empty_sep)
  show ?case
  proof (cases "cur \<noteq> [] \<and> cs < tot + length d + length ([]::string)")
    case True
    obtain cur' tot' where p: "pop_loop cs co (length ([]::string)) (length d) cur tot = (cur', tot')"
      by (cases "pop_loop cs co (length ([]::string)) (length d) cur tot")
    from p have p0: "pop_loop cs co 0 (length d) cur tot = (cur', tot')" by simp
    from pop_loop_total [OF refl Cons.prems(2) p0]
    have t: "tot' = length (concat cur')" and f: "tot' + length d \<le> cs \<or> tot' = 0" by blast+
    have "merge_step cs co [] d cur tot =
            (emit cur [], cur' @ [d], tot' + length d + (if cur' \<noteq> [] then length ([]::string) else 0))"
      using True p by (intro merge_step_flush) simp_all
    then have step: "merge_step cs co [] d cur tot = (emit cur [], cur' @ [d], tot' + length d)"
      by simp
    have "tot' + length d \<le> cs" using f d by arith
    then have "\<forall>c\<in>set (merge_loop cs co [] ds (cur' @ [d]) (tot' + length d)). length c \<le> cs"
      using Cons.prems(1) t by (intro Cons.IH) simp_all
    with emit_ok step show ?thesis by auto
  next
    case False
    then have "merge_step cs co [] d cur tot =
            ([], cur @ [d], tot + length d + (if cur \<noteq> [] then length ([]::string) else 0))"
      by (intro merge_step_append) blast
    then have step: "merge_step cs co [] d cur tot = ([], cur @ [d], tot + length d)" by simp
    have "tot + length d \<le> cs"
      using False Cons.prems(2) d by (cases "cur = []") auto
    then have "\<forall>c\<in>set (merge_loop cs co [] ds (cur @ [d]) (tot + length d)). length c \<le> cs"
      using Cons.prems by (intro Cons.IH) auto
    with step show ?thesis by simp
  qed
qed

lemma merge_splits_bound:
  "\<forall>d\<in>set g. length d \<le> cs \<Longrightarrow> \<forall>c\<in>set (merge_splits cs co g []). length c \<le> cs"
  unfolding merge_splits_def by (rule merge_loop_bound) simp_all

lemma set_emit_strip: "c \<in> set (emit docs sep) \<Longrightarrow> \<exists>x. c = strip x \<and> c \<noteq> []"
  by (drule set_emit) (rule exI [of _ "join sep docs"])

lemma merge_loop_emitted:
  "c \<in> set (merge_loop cs co sep ds cur tot) \<Longrightarrow> \<exists>x. c = strip x \<and> c \<noteq> []"
proof (induction ds arbitrary: cur tot)
  case Nil
  then have "c \<in> set (emit cur sep)" by simp
  then show ?case by (rule set_emit_strip)
next
  case (Cons d ds)
  obtain out cur' tot' where s: "merge_step cs co sep d cur tot = (out, cur', tot')"
    by (cases "merge_step cs co sep d cur tot")
  have out: "out = [] \<or> out = emit cur sep"
    using merge_step_out [of cs co sep d cur tot] s by simp
  from Cons.prems s have "c \<in> set out \<or> c \<in> set (merge_loop cs co sep ds cur' tot')" by simp
  then show ?case
  proof
    assume "c \<in> set out"
    with out have "c \<in> set (emit cur sep)" by auto
    then show ?thesis by (rule set_emit_strip)
  next
    assume "c \<in> set (merge_loop cs co sep ds cur' tot')"
    then show ?thesis by (rule Cons.IH)
  qed
qed

lemma process_splits_all:
  assumes merge: "\<And>g. \<forall>d\<in>set g. length d < cs \<Longrightarrow> \<forall>c\<in>set (merge_splits cs co g []). P c"
      and long: "\<And>s. s \<in> set splits \<Longrightarrow> cs \<le> length s \<Longrightarrow>
                   \<forall>c\<in>set (case recurse of None \<Rightarrow> [s] | Some other \<Rightarrow> other s). P c"
      and good: "\<forall>d\<in>set good. length d < cs"
  shows "\<forall>c\<in>set (process_splits cs co recurse good splits). P c"
  using long good
proof (induction splits arbitrary: good)
  case Nil
  then show ?case using merge [of good] by simp
next
  case (Cons s ss)
  show ?case
  proof (cases "length s < cs")
    case True
    have "\<forall>c\<in>set (process_splits cs co recurse (good @ [s]) ss). P c"
      using Cons.prems True by (intro Cons.IH) auto
    with True show ?thesis by simp
  next
    case False
    have 1: "\<forall>c\<in>set (merge_splits cs co good []). P c" using merge Cons.prems(2) by blast
    have 2: "\<forall>c\<in>set (case recurse of None \<Rightarrow> [s] | Some other \<Rightarrow> other s). P c"
      using Cons.prems(1) [of s] False by simp
    have 3: "\<forall>c\<in>set (process_splits cs co recurse [] ss). P c"
      using Cons.prems by (intro Cons.IH) auto
    from 1 2 3 False show ?thesis by auto
  qed
qed

lemma split_text_rec_all:
  assumes merge: "\<And>g. \<forall>d\<in>set g. length d < cs \<Longrightarrow> \<forall>c\<in>set (merge_splits cs co g []). P c"
      and single: "\<And>c. cs \<le> 1 \<Longrightarrow> P [c]"
      and seps: "[] \<in> set seps"
  shows "\<forall>c\<in>set (split_text_rec cs co seps t). P c"
  using seps
proof (induction seps arbitrary: t)
  case Nil
  then show ?case by simp
next
  case (Cons s rest)
  show ?case
  proof (cases "s = []")
    case True
    have "\<forall>c\<in>set (process_splits cs co None [] (split_text_with_regex t [])). P c"
    proof (rule process_splits_all)
      fix g :: "string list" assume "\<forall>d\<in>set g. length d < cs"
      then show "\<forall>c\<in>set (merge_splits cs co g []). P c" by (rule merge)
    next
      fix x assume "x \<in> set (split_text_with_regex t [])" and "cs \<le> length x"
      then obtain c where "x = [c]" "cs \<le> 1" by (auto simp: split_text_with_regex_def)
      then show "\<forall>c\<in>set (case None of None \<Rightarrow> [x] | Some other \<Rightarrow> other x). P c"
        by (simp add: single)
    next
      show "\<forall>d\<in>set []. length d < cs" by simp
    qed
    with True show ?thesis by simp
  next
    case False
    with Cons.prems have rest: "rest \<noteq> []" "[] \<in> set rest" by auto
    have IH: "\<And>t. \<forall>c\<in>set (split_text_rec cs co rest t). P c" using Cons.IH rest by simp
    have "\<forall>c\<in>set (process_splits cs co (Some (\<lambda>piece. split_text_rec cs co rest piece)) []
                      (split_text_with_regex t s)). P c"
    proof (rule process_splits_all)
      fix g :: "string list" assume "\<forall>d\<in>set g. length d < cs"
      then show "\<forall>c\<in>set (merge_splits cs co g []). P c" by (rule merge)
    next
      fix x
      show "\<forall>c\<in>set (case Some (\<lambda>piece. split_text_rec cs co rest piece) of
                         None \<Rightarrow> [x] | Some other \<Rightarrow> other x). P c"
        using IH [of x] by simp
    next
      show "\<forall>d\<in>set []. length d < cs" by simp
    qed
    with False rest IH show ?thesis by simp
  qed
qed

lemma split_text_bound:
  assumes "0 < cs"
  shows "\<forall>c\<in>set (split_text cs co t). length c \<le> cs"
  unfolding split_text_def
proof (rule split_text_rec_all)
  fix g :: "string list" assume "\<forall>d\<in>set g. length d < cs"
  then show "\<forall>c\<in>set (merge_splits cs co g []). length c \<le> cs"
    by (intro merge_splits_bound) auto
next
  fix c :: char show "length [c] \<le> cs" using assms by simp
next
  show "[] \<in> set separators" by (simp add: separators_def)
qed

section \<open>The documents built from the chunks\<close>

lemma map_of_dict_merge:
  "k \<notin> fst ` set e \<Longrightarrow> map_of (dict_merge d e) k = map_of d k"
  unfolding dict_merge_def
  by (induction e arbitrary: d) (auto simp: update_conv')

lemma make_document_Inr:
  assumes "make_document md i chunk = Inr doc"
  shows "page_content doc = re_sub_marker chunk"
    and "''chunk'' \<notin> fst ` set md \<Longrightarrow> chunk_index doc = Some (PInt (i + 1))"
    and "''page'' \<notin> fst ` set md \<Longrightarrow> page_of doc = Some (PInt (page_num_of chunk))"
  using assms
  by (auto simp: make_document_def chunk_index_def page_of_def map_of_dict_merge split: sum.splits)

lemma make_documents_length:
  "make_documents md i chunks = Inr docs \<Longrightarrow> length docs = length chunks"
  by (induction chunks arbitrary: i docs) (auto split: sum.splits)

lemma make_documents_content:
  "make_documents md i chunks = Inr docs \<Longrightarrow> map page_content docs = map re_sub_marker chunks"
  by (induction chunks arbitrary: i docs) (auto split: sum.splits dest: make_document_Inr(1))

lemma make_documents_chunk_index:
  "''chunk'' \<notin> fst ` set md \<Longrightarrow> make_documents md i chunks = Inr docs \<Longrightarrow>
     map chunk_index docs = map (\<lambda>j. Some (PInt j)) [i + 1..<i + 1 + length chunks]"
proof (induction chunks arbitrary: i docs)
  case Nil
  then show ?case by simp
next
  case (Cons c cs)
  from Cons.prems(2) obtain doc rest where
    d: "make_document md i c = Inr doc" and r: "make_documents md (i + 1) cs = Inr rest"
    and docs: "docs = doc # rest"
    by (auto split: sum.splits)
  have "map chunk_index rest = map (\<lambda>j. Some (PInt j)) [i + 1 + 1..<i + 1 + 1 + length cs]"
    using Cons.IH [OF Cons.prems(1) r] .
  moreover have "chunk_index doc = Some (PInt (i + 1))"
    using make_document_Inr(2) [OF d Cons.prems(1)] .
  moreover have "[i + 1..<i + 1 + length (c # cs)] = (i + 1) # [i + 1 + 1..<i + 1 + 1 + length cs]"
    by (simp add: upt_rec)
  ultimately show ?case using docs by simp
qed

lemma make_documents_page:
  "''page'' \<notin> fst ` set md \<Longrightarrow> make_documents md i chunks = Inr docs \<Longrightarrow>
     map page_of docs = map (\<lambda>c. Some (PInt (page_num_of c))) chunks"
  by (induction chunks arbitrary: i docs) (auto split: sum.splits dest: make_document_Inr(3))

lemma create_document_chunks_Inr:
  assumes "create_document_chunks all_text md cs co = Inr docs"
  shows "0 < cs" and "co \<le> cs"
    and "make_documents md 0 (split_text cs co (combined_text all_text)) = Inr docs"
  using assms
  by (auto simp: create_document_chunks_def RecursiveCharacterTextSplitter_def
           split: option.splits if_splits)

lemma set_source_simps:
  "page_content (set_source f d) = page_content d"
  "chunk_index (set_source f d) = chunk_index d"
  "page_of (set_source f d) = page_of d"
  by (simp_all add: set_source_def chunk_index_def page_of_def update_conv')

lemma pdf_doc_metadata_std: "pipeline_metadata (pdf_doc_metadata doc p)"
  by (simp add: pipeline_metadata_def pdf_doc_metadata_def)

lemma docx_doc_metadata_std: "pipeline_metadata (docx_doc_metadata doc p)"
  by (simp add: pipeline_metadata_def docx_doc_metadata_def)

lemma extract_text_from_pdf_cases:
  assumes "fst (extract_text_from_pdf lib w p cs co) = Inr docs"
  shows "docs = [] \<or> (\<exists>all_text md. pipeline_metadata md \<and>
           create_document_chunks all_text md cs co = Inr docs)"
  using assms pdf_doc_metadata_std
  by (auto simp: extract_text_from_pdf_def Let_def split: option.splits sum.splits if_splits)

lemma extract_text_from_docx_cases:
  assumes "fst (extract_text_from_docx threshold lib w p cs co) = Inr docs"
  shows "docs = [] \<or> (\<exists>all_text md. pipeline_metadata md \<and>
           create_document_chunks all_text md cs co = Inr docs)"
  using assms docx_doc_metadata_std
  by (auto simp: extract_text_from_docx_def Let_def split: option.splits sum.splits if_splits)

lemma process_document_from_bytes_cases:
  assumes "fst (process_document_from_bytes threshold lib w b f cs co) = Inr docs"
  shows "docs = [] \<or> (\<exists>all_text md docs0. pipeline_metadata md \<and>
           create_document_chunks all_text md (arg_or cs 1000) (arg_or co 100) = Inr docs0 \<and>
           docs = map (set_source f) docs0)"
proof -
  define ext where "ext = snd (splitext (lower f))"
  from assms obtain tp where t: "NamedTemporaryFile lib ext = Inr tp"
    by (cases "NamedTemporaryFile lib ext")
       (auto simp: process_document_from_bytes_def Let_def ext_def)
  define w1 where "w1 = w\<lparr>files := (files w)(tp \<mapsto> b)\<rparr>"
  define r where "r = dispatch threshold lib w1 ext tp (arg_or cs 1000) (arg_or co 100)"
  from assms t obtain docs0 where r0: "fst r = Inr docs0" and d: "docs = map (set_source f) docs0"
    by (auto simp: process_document_from_bytes_def Let_def r_def w1_def ext_def
             split: sum.splits)
  have "docs0 = [] \<or> (\<exists>all_text md. pipeline_metadata md \<and>
           create_document_chunks all_text md (arg_or cs 1000) (arg_or co 100) = Inr docs0)"
    using r0 extract_text_from_pdf_cases extract_text_from_docx_cases
    unfolding r_def dispatch_def by (auto split: if_splits)
  with d show ?thesis by auto
qed

section \<open>Chunk size\<close>

lemma create_document_chunks_length:
  assumes "create_document_chunks all_text md cs co = Inr docs"
  shows "\<forall>d\<in>set docs. length (page_content d) \<le> cs"
proof -
  let ?chunks = "split_text cs co (combined_text all_text)"
  from create_document_chunks_Inr [OF assms]
  have cs: "0 < cs" and m: "make_documents md 0 ?chunks = Inr docs" by simp_all
  have "\<forall>c\<in>set ?chunks. length c \<le> cs" using cs by (rule split_text_bound)
  then have "\<forall>c\<in>set ?chunks. length (re_sub_marker c) \<le> cs"
    using re_sub_marker_length le_trans by blast
  then have "\<forall>t\<in>set (map page_content docs). length t \<le> cs"
    using make_documents_content [OF m] by simp
  then show ?thesis by simp
qed

text \<open>
  Claim C1.  Every chunk returned by \<open>create_document_chunks\<close>, and every chunk returned
  by \<open>process_document_from_bytes\<close> (which reaches it through one of the extractors),
  has a text of at most \<open>chunk_size\<close> characters.  This holds for every result that is
  not an error, so in particular whenever \<open>0 < chunk_overlap < chunk_size\<close>.
\<close>

theorem chunk_text_within_chunk_size:
  "(create_document_chunks all_text md chunk_size chunk_overlap = Inr docs \<longrightarrow>
      (\<forall>d\<in>set docs. length (page_content d) \<le> chunk_size)) \<and>
   (fst (process_document_from_bytes threshold lib w doc_bytes filename size_arg overlap_arg) = Inr docs' \<longrightarrow>
      (\<forall>d\<in>set docs'. length (page_content d) \<le> arg_or size_arg 1000))"
proof (intro conjI impI)
  assume "create_document_chunks all_text md chunk_size chunk_overlap = Inr docs"
  then show "\<forall>d\<in>set docs. length (page_content d) \<le> chunk_size"
    by (rule create_document_chunks_length)
next
  assume "fst (process_document_from_bytes threshold lib w doc_bytes filename size_arg overlap_arg) = Inr docs'"
  from process_document_from_bytes_cases [OF this]
  show "\<forall>d\<in>set docs'. length (page_content d) \<le> arg_or size_arg 1000"
    using create_document_chunks_length by (auto simp: set_source_simps)
qed

lemma sample_chunks_run:
  "create_document_chunks sample_pages sample_metadata 12 2 = Inr sample_chunks"
  by code_simp

lemma sample_pdf_run:
  "fst (process_document_from_bytes 3000 sample_parsers empty_world ''%PDF'' ''x.PDF'' None None) =
     Inr sample_pdf_chunks"
  by code_simp

theorem chunk_text_within_chunk_size_witness:
  "create_document_chunks sample_pages sample_metadata 12 2 = Inr sample_chunks \<and>
   list_all (\<lambda>d. length (page_content d) \<le> 12) sample_chunks \<and>
   fst (process_document_from_bytes 3000 sample_parsers empty_world ''%PDF'' ''x.PDF'' None None) =
     Inr sample_pdf_chunks \<and>
   list_all (\<lambda>d. length (page_content d) \<le> arg_or None 1000) sample_pdf_chunks"
  unfolding list_all_iff
  using chunk_text_within_chunk_size [of sample_pages sample_metadata 12 2 sample_chunks
          3000 sample_parsers empty_world "''%PDF''" "''x.PDF''" None None sample_pdf_chunks]
        sample_chunks_run sample_pdf_run
  by blast

lemma create_document_chunks_chunk_index:
  assumes "''chunk'' \<notin> fst ` set md"
      and "create_document_chunks all_text md cs co = Inr docs"
  shows "map chunk_index docs = map (\<lambda>i. Some (PInt i)) [1..<length docs + 1]"
proof -
  let ?chunks = "split_text cs co (combined_text all_text)"
  from create_document_chunks_Inr [OF assms(2)]
  have m: "make_documents md 0 ?chunks = Inr docs" by simp
  from make_documents_chunk_index [OF assms(1) m] make_documents_length [OF m]
  show ?thesis by simp
qed

text \<open>
  Claim C2.  The chunk indices of the returned documents are exactly 1, 2, ..., N in
  this order, N being the number of documents returned: for \<open>create_document_chunks\<close>
  when the document metadata has no key \<open>chunk\<close> of its own, and for every result of
  \<open>process_document_from_bytes\<close>.
\<close>

theorem chunk_index_one_to_N:
  "(''chunk'' \<notin> fst ` set md \<longrightarrow>
    create_document_chunks all_text md chunk_size chunk_overlap = Inr docs \<longrightarrow>
      map chunk_index docs = map (\<lambda>i. Some (PInt i)) [1..<length docs + 1]) \<and>
   (fst (process_document_from_bytes threshold lib w doc_bytes filename size_arg overlap_arg) = Inr docs' \<longrightarrow>
      map chunk_index docs' = map (\<lambda>i. Some (PInt i)) [1..<length docs' + 1])"
proof (intro conjI impI)
  assume "''chunk'' \<notin> fst ` set md"
     and "create_document_chunks all_text md chunk_size chunk_overlap = Inr docs"
  then show "map chunk_index docs = map (\<lambda>i. Some (PInt i)) [1..<length docs + 1]"
    by (rule create_document_chunks_chunk_index)
next
  assume "fst (process_document_from_bytes threshold lib w doc_bytes filename size_arg overlap_arg) = Inr docs'"
  from process_document_from_bytes_cases [OF this]
  show "map chunk_index docs' = map (\<lambda>i. Some (PInt i)) [1..<length docs' + 1]"
  proof
    assume "docs' = []"
    then show ?thesis by simp
  next
    assume "\<exists>all_text md docs0. pipeline_metadata md \<and>
           create_document_chunks all_text md (arg_or size_arg 1000) (arg_or overlap_arg 100) = Inr docs0 \<and>
           docs' = map (set_source filename) docs0"
    then obtain all_text md docs0 where md: "pipeline_metadata md"
      and c: "create_document_chunks all_text md (arg_or size_arg 1000) (arg_or overlap_arg 100) = Inr docs0"
      and d: "docs' = map (set_source filename) docs0" by blast
    have "''chunk'' \<notin> fst ` set md" using md by (simp add: pipeline_metadata_def)
    from create_document_chunks_chunk_index [OF this c]
    have "map chunk_index docs0 = map (\<lambda>i. Some (PInt i)) [1..<length docs0 + 1]" .
    moreover have "map chunk_index docs' = map chunk_index docs0"
      using d by (simp add: set_source_simps comp_def)
    ultimately show ?thesis using d by simp
  qed
qed

theorem chunk_index_one_to_N_witness:
  "''chunk'' \<notin> fst ` set sample_metadata \<and>
   create_document_chunks sample_pages sample_metadata 12 2 = Inr sample_chunks \<and>
   map chunk_index sample_chunks = map (\<lambda>i. Some (PInt i)) [1..<length sample_chunks + 1] \<and>
   fst (process_document_from_bytes 3000 sample_parsers empty_world ''%PDF'' ''x.PDF'' None None) =
     Inr sample_pdf_chunks \<and>
   map chunk_index sample_pdf_chunks = map (\<lambda>i. Some (PInt i)) [1..<length sample_pdf_chunks + 1]"
proof -
  have k: "''chunk'' \<notin> fst ` set sample_metadata" by (simp add: sample_metadata_def)
  show ?thesis
    using chunk_index_one_to_N [of sample_metadata sample_pages 12 2 sample_chunks
            3000 sample_parsers empty_world "''%PDF''" "''x.PDF''" None None sample_pdf_chunks]
          sample_chunks_run sample_pdf_run k
    by blast
qed

text \<open>
  Claim C10.  \<open>process_pdf_from_bytes\<close> returns what \<open>process_document_from_bytes\<close>
  returns on the same arguments; a file name left out is \<open>document.pdf\<close>, and both have
  the defaults \<open>chunk_size = 1000\<close>, \<open>chunk_overlap = 100\<close>.
\<close>

theorem process_pdf_from_bytes_is_alias:
  "process_pdf_from_bytes threshold lib w pdf_bytes (Some filename) size_arg overlap_arg =
     process_document_from_bytes threshold lib w pdf_bytes filename size_arg overlap_arg \<and>
   process_pdf_from_bytes threshold lib w pdf_bytes None size_arg overlap_arg =
     process_document_from_bytes threshold lib w pdf_bytes ''document.pdf'' size_arg overlap_arg \<and>
   process_pdf_from_bytes threshold lib w pdf_bytes None None None =
     process_document_from_bytes threshold lib w pdf_bytes ''document.pdf'' (Some 1000) (Some 100)"
  by (cases size_arg; cases overlap_arg)
     (simp_all add: process_pdf_from_bytes_def process_document_from_bytes_def arg_or_def Let_def
        cong: sum.case_cong)

theorem process_pdf_from_bytes_is_alias_witness:
  "process_pdf_from_bytes 3000 sample_parsers empty_world ''%PDF'' (Some ''x.PDF'') None (Some 50) =
     process_document_from_bytes 3000 sample_parsers empty_world ''%PDF'' ''x.PDF'' None (Some 50) \<and>
   fst (process_pdf_from_bytes 3000 sample_parsers empty_world ''%PDF'' (Some ''x.PDF'') None None) =
     Inr sample_pdf_chunks"
  using process_pdf_from_bytes_is_alias [of 3000 sample_parsers empty_world "''%PDF''" "''x.PDF''" None "Some 50"]
        process_pdf_from_bytes_is_alias [of 3000 sample_parsers empty_world "''%PDF''" "''x.PDF''" None None]
        sample_pdf_run
  by simp

lemma NamedTemporaryFile_supported:
  "file_ext \<in> {''.pdf'', ''.docx'', ''.doc''} \<Longrightarrow>
     NamedTemporaryFile lib file_ext = Inr (temp_stem lib @ file_ext)"
  by (auto simp: NamedTemporaryFile_def fsencode_length_def)

lemma NamedTemporaryFile_cases:
  "(\<exists>e. \<forall>lib. NamedTemporaryFile lib file_ext = Inl e) \<or>
   (\<forall>lib. NamedTemporaryFile lib file_ext = Inr (temp_stem lib @ file_ext))"
  unfolding NamedTemporaryFile_def by auto

lemma process_document_from_bytes_dispatch:
  "NamedTemporaryFile lib (snd (splitext (lower filename))) = Inr temp_path \<Longrightarrow>
   process_document_from_bytes threshold lib w doc_bytes filename size_arg overlap_arg =
     (let file_ext = snd (splitext (lower filename));
          r = dispatch threshold lib (w\<lparr>files := (files w)(temp_path \<mapsto> doc_bytes)\<rparr>) file_ext temp_path
                (arg_or size_arg 1000) (arg_or overlap_arg 100)
      in (case fst r of Inl e \<Rightarrow> Inl e | Inr documents \<Rightarrow> Inr (map (set_source filename) documents),
          (snd r)\<lparr>files := (files (snd r))(temp_path := None)\<rparr>))"
  by (simp add: process_document_from_bytes_def Let_def)

lemma process_document_from_bytes_no_scratch:
  "NamedTemporaryFile lib (snd (splitext (lower filename))) = Inl e \<Longrightarrow>
   process_document_from_bytes threshold lib w doc_bytes filename size_arg overlap_arg = (Inl e, w)"
  by (simp add: process_document_from_bytes_def Let_def)

lemma pdf_all_text_empty:
  "\<forall>blocks\<in>set pages. pdf_page_text blocks = [] \<Longrightarrow> pdf_all_text i pages = []"
  by (induction pages arbitrary: i) simp_all

lemma stripped_nonblank_empty:
  "\<forall>t\<in>set ts. strip t = [] \<Longrightarrow> stripped_nonblank ts = []"
  by (simp add: stripped_nonblank_def filter_empty_conv)

lemma extract_text_from_pdf_no_text:
  assumes "files w pdf_path = Some bytes" and "fitz_open lib bytes = Inr doc"
      and "\<forall>blocks\<in>set (pdf_pages doc). pdf_page_text blocks = []"
  shows "fst (extract_text_from_pdf lib w pdf_path chunk_size chunk_overlap) = Inr []"
  using assms pdf_all_text_empty [of "pdf_pages doc" 0]
  by (simp add: extract_text_from_pdf_def Let_def)

lemma extract_text_from_docx_no_text:
  assumes "files w docx_path = Some bytes" and "docx_Document lib bytes = Inr doc"
      and "\<forall>t\<in>set (paragraphs doc) \<union> set (concat (concat (tables doc))). strip t = []"
  shows "fst (extract_text_from_docx threshold lib w docx_path chunk_size chunk_overlap) = Inr []"
proof -
  have "paragraphs_text doc = []"
    using assms(3) by (simp add: paragraphs_text_def stripped_nonblank_empty)
  with assms(1,2) show ?thesis by (simp add: extract_text_from_docx_def Let_def)
qed

text \<open>
  Claim C5.  A document that the parser reads successfully and that has no text (a PDF
  all of whose pages have an empty cleaned text; a DOCX all of whose paragraphs and table
  cells are blank) gives the empty list of chunks as a regular result, not an error: from
  the two extractors and from \<open>process_document_from_bytes\<close>.
\<close>

theorem no_text_gives_empty_result:
  "(files w path = Some bytes \<longrightarrow> fitz_open lib bytes = Inr pdf \<longrightarrow>
      (\<forall>blocks\<in>set (pdf_pages pdf). pdf_page_text blocks = []) \<longrightarrow>
      fst (extract_text_from_pdf lib w path chunk_size chunk_overlap) = Inr []) \<and>
   (files w path = Some bytes \<longrightarrow> docx_Document lib bytes = Inr docx \<longrightarrow>
      (\<forall>t\<in>set (paragraphs docx) \<union> set (concat (concat (tables docx))). strip t = []) \<longrightarrow>
      fst (extract_text_from_docx threshold lib w path chunk_size chunk_overlap) = Inr []) \<and>
   (snd (splitext (lower filename)) = ''.pdf'' \<longrightarrow> fitz_open lib bytes = Inr pdf \<longrightarrow>
      (\<forall>blocks\<in>set (pdf_pages pdf). pdf_page_text blocks = []) \<longrightarrow>
      fst (process_document_from_bytes threshold lib w bytes filename size_arg overlap_arg) = Inr []) \<and>
   (snd (splitext (lower filename)) \<in> {''.docx'', ''.doc''} \<longrightarrow> docx_Document lib bytes = Inr docx \<longrightarrow>
      (\<forall>t\<in>set (paragraphs docx) \<union> set (concat (concat (tables docx))). strip t = []) \<longrightarrow>
      fst (process_document_from_bytes threshold lib w bytes filename size_arg overlap_arg) = Inr [])"
proof (intro conjI impI)
  assume "files w path = Some bytes" "fitz_open lib bytes = Inr pdf"
    "\<forall>blocks\<in>set (pdf_pages pdf). pdf_page_text blocks = []"
  then show "fst (extract_text_from_pdf lib w path chunk_size chunk_overlap) = Inr []"
    by (rule extract_text_from_pdf_no_text)
next
  assume "files w path = Some bytes" "docx_Document lib bytes = Inr docx"
    "\<forall>t\<in>set (paragraphs docx) \<union> set (concat (concat (tables docx))). strip t = []"
  then show "fst (extract_text_from_docx threshold lib w path chunk_size chunk_overlap) = Inr []"
    by (rule extract_text_from_docx_no_text)
next
  assume e: "snd (splitext (lower filename)) = ''.pdf''" and p: "fitz_open lib bytes = Inr pdf"
    and n: "\<forall>blocks\<in>set (pdf_pages pdf). pdf_page_text blocks = []"
  let ?tp = "temp_stem lib @ ''.pdf''"
  let ?w1 = "w\<lparr>files := (files w)(?tp \<mapsto> bytes)\<rparr>"
  have t: "NamedTemporaryFile lib (snd (splitext (lower filename))) = Inr ?tp"
    using e by (simp add: NamedTemporaryFile_supported)
  have "files ?w1 ?tp = Some bytes" by simp
  from extract_text_from_pdf_no_text [OF this p n]
  show "fst (process_document_from_bytes threshold lib w bytes filename size_arg overlap_arg) = Inr []"
    using e by (simp add: process_document_from_bytes_dispatch [OF t] dispatch_def Let_def)
next
  assume e: "snd (splitext (lower filename)) \<in> {''.docx'', ''.doc''}"
    and p: "docx_Document lib bytes = Inr docx"
    and n: "\<forall>t\<in>set (paragraphs docx) \<union> set (concat (concat (tables docx))). strip t = []"
  let ?tp = "temp_stem lib @ snd (splitext (lower filename))"
  let ?w1 = "w\<lparr>files := (files w)(?tp \<mapsto> bytes)\<rparr>"
  have t: "NamedTemporaryFile lib (snd (splitext (lower filename))) = Inr ?tp"
    using e by (intro NamedTemporaryFile_supported) simp
  have "files ?w1 ?tp = Some bytes" by simp
  from extract_text_from_docx_no_text [OF this p n, of threshold]
  show "fst (process_document_from_bytes threshold lib w bytes filename size_arg overlap_arg) = Inr []"
    using e by (auto simp add: process_document_from_bytes_dispatch [OF t] dispatch_def Let_def)
qed

lemma scanned_pdf_no_text: "\<forall>blocks\<in>set (pdf_pages scanned_pdf). pdf_page_text blocks = []"
  by code_simp

lemma blank_docx_no_text:
  "\<forall>t\<in>set (paragraphs blank_docx) \<union> set (concat (concat (tables blank_docx))). strip t = []"
  by code_simp

lemma splitext_scan: "snd (splitext (lower ''Scan.pdf'')) = ''.pdf''"
  "snd (splitext (lower ''blank.DOC'')) \<in> {''.docx'', ''.doc''}"
  by code_simp+

theorem no_text_gives_empty_result_witness:
  "files scan_world ''/in/scan'' = Some ''bytes'' \<and>
   fitz_open scan_parsers ''bytes'' = Inr scanned_pdf \<and>
   docx_Document scan_parsers ''bytes'' = Inr blank_docx \<and>
   list_all (\<lambda>blocks. pdf_page_text blocks = []) (pdf_pages scanned_pdf) \<and>
   list_all (\<lambda>t. strip t = []) (paragraphs blank_docx @ concat (concat (tables blank_docx))) \<and>
   snd (splitext (lower ''Scan.pdf'')) = ''.pdf'' \<and>
   snd (splitext (lower ''blank.DOC'')) \<in> {''.docx'', ''.doc''} \<and>
   fst (extract_text_from_pdf scan_parsers scan_world ''/in/scan'' 1000 100) = Inr [] \<and>
   fst (extract_text_from_docx 3000 scan_parsers scan_world ''/in/scan'' 1000 100) = Inr [] \<and>
   fst (process_document_from_bytes 3000 scan_parsers scan_world ''bytes'' ''Scan.pdf'' None None) = Inr [] \<and>
   fst (process_document_from_bytes 3000 scan_parsers scan_world ''bytes'' ''blank.DOC'' None None) = Inr []"
proof -
  have f: "files scan_world ''/in/scan'' = Some ''bytes''" by (simp add: scan_world_def)
  have p: "fitz_open scan_parsers ''bytes'' = Inr scanned_pdf"
          "docx_Document scan_parsers ''bytes'' = Inr blank_docx"
    by (simp_all add: scan_parsers_def)
  show ?thesis
    unfolding list_all_iff set_append
    using no_text_gives_empty_result [of scan_world "''/in/scan''" "''bytes''" scan_parsers scanned_pdf
            1000 100 blank_docx 3000 "''Scan.pdf''" None None]
          no_text_gives_empty_result [of scan_world "''/in/scan''" "''bytes''" scan_parsers scanned_pdf
            1000 100 blank_docx 3000 "''blank.DOC''" None None]
          f p scanned_pdf_no_text blank_docx_no_text splitext_scan
    by blast
qed

section \<open>Two runs\<close>

lemma make_documents_cong:
  assumes "\<And>i c. map_sum id g (make_document md1 i c) = map_sum id g (make_document md2 i c)"
  shows "map_sum id (map g) (make_documents md1 i cs) = map_sum id (map g) (make_documents md2 i cs)"
proof (induction cs arbitrary: i)
  case Nil
  show ?case by simp
next
  case (Cons c cs)
  from assms [of i c] Cons.IH [of "i + 1"] show ?case
    by (cases "make_document md1 i c"; cases "make_document md2 i c";
        cases "make_documents md1 (i + 1) cs"; cases "make_documents md2 (i + 1) cs") simp_all
qed

lemma create_document_chunks_cong:
  assumes "\<And>i c. map_sum id g (make_document md1 i c) = map_sum id g (make_document md2 i c)"
  shows "map_sum id (map g) (create_document_chunks all_text md1 cs co) =
         map_sum id (map g) (create_document_chunks all_text md2 cs co)"
  using make_documents_cong [of g md1 md2, OF assms]
  by (simp add: create_document_chunks_def split: option.splits)

lemma make_document_pdf_path:
  "map_sum id (set_source f) (make_document (pdf_doc_metadata doc p1) i c) =
   map_sum id (set_source f) (make_document (pdf_doc_metadata doc p2) i c)"
  by (simp add: make_document_def dict_item_def pdf_doc_metadata_def dict_merge_def set_source_def)

lemma make_document_docx_path:
  "map_sum id (set_source f) (make_document (docx_doc_metadata doc p1) i c) =
   map_sum id (set_source f) (make_document (docx_doc_metadata doc p2) i c)"
  by (simp add: make_document_def dict_item_def docx_doc_metadata_def dict_merge_def set_source_def)

lemma extract_text_from_pdf_path:
  assumes "files w1 p1 = Some bytes" and "files w2 p2 = Some bytes"
      and "fitz_open lib1 = fitz_open lib2"
  shows "map_sum id (map (set_source f)) (fst (extract_text_from_pdf lib1 w1 p1 cs co)) =
         map_sum id (map (set_source f)) (fst (extract_text_from_pdf lib2 w2 p2 cs co))"
proof (cases "fitz_open lib2 bytes")
  case (Inl e)
  with assms show ?thesis by (simp add: extract_text_from_pdf_def Let_def)
next
  case (Inr doc)
  have "map_sum id (map (set_source f))
          (create_document_chunks (pdf_all_text 0 (pdf_pages doc)) (pdf_doc_metadata doc p1) cs co) =
        map_sum id (map (set_source f))
          (create_document_chunks (pdf_all_text 0 (pdf_pages doc)) (pdf_doc_metadata doc p2) cs co)"
    by (rule create_document_chunks_cong) (rule make_document_pdf_path)
  with Inr assms show ?thesis by (simp add: extract_text_from_pdf_def Let_def)
qed

lemma extract_text_from_docx_path:
  assumes "files w1 p1 = Some bytes" and "files w2 p2 = Some bytes"
      and "docx_Document lib1 = docx_Document lib2"
  shows "map_sum id (map (set_source f)) (fst (extract_text_from_docx threshold lib1 w1 p1 cs co)) =
         map_sum id (map (set_source f)) (fst (extract_text_from_docx threshold lib2 w2 p2 cs co))"
proof (cases "docx_Document lib2 bytes")
  case (Inl e)
  with assms show ?thesis by (simp add: extract_text_from_docx_def Let_def)
next
  case (Inr doc)
  have "map_sum id (map (set_source f))
          (create_document_chunks (docx_all_text threshold [] 1 (paragraphs_text doc))
             (docx_doc_metadata doc p1) cs co) =
        map_sum id (map (set_source f))
          (create_document_chunks (docx_all_text threshold [] 1 (paragraphs_text doc))
             (docx_doc_metadata doc p2) cs co)"
    by (rule create_document_chunks_cong) (rule make_document_docx_path)
  with Inr assms show ?thesis by (simp add: extract_text_from_docx_def Let_def)
qed

lemma dispatch_path:
  assumes "files w1 p1 = Some bytes" and "files w2 p2 = Some bytes"
      and "fitz_open lib1 = fitz_open lib2" and "docx_Document lib1 = docx_Document lib2"
  shows "map_sum id (map (set_source f)) (fst (dispatch threshold lib1 w1 ext p1 cs co)) =
         map_sum id (map (set_source f)) (fst (dispatch threshold lib2 w2 ext p2 cs co))"
  using extract_text_from_pdf_path [OF assms(1,2,3)] extract_text_from_docx_path [OF assms(1,2,4)]
  by (simp add: dispatch_def)

lemma process_result_map_sum:
  "fst (process_document_from_bytes threshold lib w doc_bytes filename size_arg overlap_arg) =
     (case NamedTemporaryFile lib (snd (splitext (lower filename))) of
        Inl e \<Rightarrow> Inl e
      | Inr tp \<Rightarrow>
          map_sum id (map (set_source filename))
            (fst (dispatch threshold lib (w\<lparr>files := (files w)(tp \<mapsto> doc_bytes)\<rparr>)
                    (snd (splitext (lower filename))) tp
                    (arg_or size_arg 1000) (arg_or overlap_arg 100))))"
  by (simp add: process_document_from_bytes_def Let_def split: sum.splits)

text \<open>
  Claim C9.  Two runs of \<open>process_document_from_bytes\<close> on the same bytes, file name,
  chunk size and overlap return the same result (the same chunk texts and metadata, or
  the same error), whatever the names of the two scratch files and the state of the file
  system.  The parsers are the same functions of the bytes in both runs.  The name of
  the scratch file does reach the \<open>file_name\<close> and \<open>source\<close> metadata inside
  the extractors; the last loop overwrites both.
\<close>

theorem two_runs_same_result:
  assumes "fitz_open lib1 = fitz_open lib2" and "docx_Document lib1 = docx_Document lib2"
  shows "fst (process_document_from_bytes threshold lib1 w1 doc_bytes filename size_arg overlap_arg) =
         fst (process_document_from_bytes threshold lib2 w2 doc_bytes filename size_arg overlap_arg)"
proof -
  let ?ext = "snd (splitext (lower filename))"
  from NamedTemporaryFile_cases [of ?ext] show ?thesis
  proof
    assume "\<exists>e. \<forall>lib. NamedTemporaryFile lib ?ext = Inl e"
    then show ?thesis by (auto simp only: process_result_map_sum sum.case)
  next
    assume t: "\<forall>lib. NamedTemporaryFile lib ?ext = Inr (temp_stem lib @ ?ext)"
    let ?p1 = "temp_stem lib1 @ ?ext" and ?p2 = "temp_stem lib2 @ ?ext"
    let ?v1 = "w1\<lparr>files := (files w1)(?p1 \<mapsto> doc_bytes)\<rparr>"
    let ?v2 = "w2\<lparr>files := (files w2)(?p2 \<mapsto> doc_bytes)\<rparr>"
    have f: "files ?v1 ?p1 = Some doc_bytes" "files ?v2 ?p2 = Some doc_bytes" by simp_all
    have "map_sum id (map (set_source filename))
            (fst (dispatch threshold lib1 ?v1 ?ext ?p1 (arg_or size_arg 1000) (arg_or overlap_arg 100))) =
          map_sum id (map (set_source filename))
            (fst (dispatch threshold lib2 ?v2 ?ext ?p2 (arg_or size_arg 1000) (arg_or overlap_arg 100)))"
      using f assms by (rule dispatch_path)
    then show ?thesis using t by (simp only: process_result_map_sum sum.case)
  qed
qed

theorem two_runs_same_result_witness:
  "fitz_open sample_parsers = fitz_open second_run_parsers \<and>
   docx_Document sample_parsers = docx_Document second_run_parsers \<and>
   NamedTemporaryFile sample_parsers ''.pdf'' \<noteq> NamedTemporaryFile second_run_parsers ''.pdf'' \<and>
   fst (process_document_from_bytes 3000 sample_parsers empty_world ''%PDF'' ''x.PDF'' None None) =
     Inr sample_pdf_chunks \<and>
   fst (process_document_from_bytes 3000 second_run_parsers scan_world ''%PDF'' ''x.PDF'' None None) =
     Inr sample_pdf_chunks"
proof -
  have p: "fitz_open sample_parsers = fitz_open second_run_parsers"
          "docx_Document sample_parsers = docx_Document second_run_parsers"
    by (simp_all add: second_run_parsers_def)
  have n: "NamedTemporaryFile sample_parsers ''.pdf'' \<noteq> NamedTemporaryFile second_run_parsers ''.pdf''"
    by (simp add: NamedTemporaryFile_supported second_run_parsers_def sample_parsers_def)
  show ?thesis
    using two_runs_same_result [OF p, of 3000 empty_world "''%PDF''" "''x.PDF''" None None scan_world]
          sample_pdf_run p n
    by simp
qed

section \<open>Chunks are not blank\<close>

lemma match_page_marker_Some:
  assumes "match_page_marker s = Some (ds, r)"
  shows "s = ''Page '' @ ds @ CHR '':'' # r" and "ds \<noteq> []" and "\<forall>d\<in>set ds. isdigit d"
proof -
  from assms have p: "prefix ''Page '' s" by (auto simp: match_page_marker_def split: if_splits)
  then obtain zs where s: "s = ''Page '' @ zs" by (auto simp: prefix_def)
  then have z: "drop 5 s = zs" by simp
  from assms p z have ds: "ds = takeWhile isdigit zs" and "ds \<noteq> []"
    and d: "dropWhile isdigit zs = CHR '':'' # r"
    by (auto simp: match_page_marker_def Let_def split: if_splits list.splits)
  show "ds \<noteq> []" by fact
  show "\<forall>d\<in>set ds. isdigit d" using ds by (auto dest: set_takeWhileD)
  have "zs = ds @ CHR '':'' # r" using ds d takeWhile_dropWhile_id [of isdigit zs] by simp
  with s show "s = ''Page '' @ ds @ CHR '':'' # r" by simp
qed

lemma match_marker_space_Some:
  assumes "match_marker_space s = Some rest"
  shows "\<exists>ds. s = ''Page '' @ ds @ '': '' @ rest \<and> ds \<noteq> [] \<and> (\<forall>d\<in>set ds. isdigit d)"
proof -
  from assms obtain ds r where m: "match_page_marker s = Some (ds, r)" and r: "r = CHR '' '' # rest"
    by (auto simp: match_marker_space_def split: option.splits list.splits if_splits)
  from match_page_marker_Some [OF m] r show ?thesis by auto
qed

lemma isspace_space [simp]: "isspace (CHR '' '')"
  by (simp add: isspace_def)

lemma re_sub_marker_last:
  "s \<noteq> [] \<Longrightarrow> \<not> isspace (last s) \<Longrightarrow> re_sub_marker s \<noteq> [] \<and> last (re_sub_marker s) = last s"
proof (induction s rule: re_sub_marker.induct)
  case 1
  then show ?case by simp
next
  case (2 c cs)
  show ?case
  proof (cases "match_marker_space (c # cs)")
    case None
    show ?thesis
    proof (cases "cs = []")
      case True
      with None show ?thesis by simp
    next
      case False
      with "2.prems" have "\<not> isspace (last cs)" by simp
      with "2.IH"(1) [OF None False] False None show ?thesis by simp
    qed
  next
    case (Some rest)
    from match_marker_space_Some [OF Some] obtain ds where
      s: "c # cs = ''Page '' @ ds @ '': '' @ rest" by blast
    have rest: "rest \<noteq> []"
    proof
      assume "rest = []"
      with s have "last (c # cs) = CHR '' ''" by (simp del: append_Cons add: last_append)
      with "2.prems"(2) show False by simp
    qed
    then have l: "last (c # cs) = last rest" using s by (simp add: last_append)
    with "2.prems"(2) have "\<not> isspace (last rest)" by simp
    with "2.IH"(2) [OF Some rest] l Some show ?thesis by simp
  qed
qed

lemma strip_Nil_iff: "strip s = [] \<longleftrightarrow> (\<forall>c\<in>set s. isspace c)"
proof -
  have "strip s = [] \<longleftrightarrow> (\<forall>c\<in>set (dropWhile isspace s). isspace c)"
    by (simp add: strip_def rstrip_def lstrip_def dropWhile_eq_Nil_conv)
  also have "\<dots> \<longleftrightarrow> (\<forall>c\<in>set s. isspace c)"
  proof
    assume a: "\<forall>c\<in>set (dropWhile isspace s). isspace c"
    show "\<forall>c\<in>set s. isspace c"
    proof (cases "dropWhile isspace s")
      case Nil
      then show ?thesis by (simp add: dropWhile_eq_Nil_conv)
    next
      case (Cons x xs)
      then have "\<not> isspace x" using hd_dropWhile [of isspace s] by simp
      with a Cons show ?thesis by simp
    qed
  next
    assume "\<forall>c\<in>set s. isspace c"
    then show "\<forall>c\<in>set (dropWhile isspace s). isspace c" by (auto dest: set_dropWhileD)
  qed
  finally show ?thesis .
qed

lemma strip_last:
  assumes "strip x \<noteq> []"
  shows "\<not> isspace (last (strip x))"
proof -
  let ?t = "dropWhile isspace (rev (lstrip x))"
  from assms have t: "?t \<noteq> []" by (simp add: strip_def rstrip_def)
  then have "\<not> isspace (hd ?t)" by (rule hd_dropWhile)
  moreover have "last (strip x) = hd ?t" using t by (simp add: strip_def rstrip_def last_rev)
  ultimately show ?thesis by simp
qed

lemma strip_stripped_last:
  assumes "s \<noteq> []" and "\<not> isspace (last s)"
  shows "strip s \<noteq> []"
proof -
  from assms have "last s \<in> set s" by simp
  with assms(2) show ?thesis by (auto simp: strip_Nil_iff)
qed

lemma split_text_stripped:
  assumes "1 < cs"
  shows "\<forall>c\<in>set (split_text cs co t). c \<noteq> [] \<and> \<not> isspace (last c)"
  unfolding split_text_def
proof (rule split_text_rec_all)
  fix g :: "string list"
  show "\<forall>c\<in>set (merge_splits cs co g []). c \<noteq> [] \<and> \<not> isspace (last c)"
    unfolding merge_splits_def using merge_loop_emitted strip_last by blast
next
  fix c :: char assume "cs \<le> 1"
  with assms show "[c] \<noteq> [] \<and> \<not> isspace (last [c])" by simp
next
  show "[] \<in> set separators" by (simp add: separators_def)
qed

lemma create_document_chunks_nonblank:
  assumes "1 < cs" and "create_document_chunks all_text md cs co = Inr docs"
  shows "\<forall>d\<in>set docs. strip (page_content d) \<noteq> []"
proof -
  let ?chunks = "split_text cs co (combined_text all_text)"
  from create_document_chunks_Inr [OF assms(2)]
  have m: "make_documents md 0 ?chunks = Inr docs" by simp
  have "\<forall>c\<in>set ?chunks. strip (re_sub_marker c) \<noteq> []"
  proof
    fix c assume "c \<in> set ?chunks"
    with split_text_stripped [OF assms(1)] have c: "c \<noteq> []" "\<not> isspace (last c)" by blast+
    from re_sub_marker_last [OF c] c(2)
    have "re_sub_marker c \<noteq> []" "\<not> isspace (last (re_sub_marker c))" by simp_all
    then show "strip (re_sub_marker c) \<noteq> []" by (rule strip_stripped_last)
  qed
  then have "\<forall>t\<in>set (map page_content docs). strip t \<noteq> []"
    using make_documents_content [OF m] by simp
  then show ?thesis by simp
qed

text \<open>
  Claim C4.  With a chunk size of at least 2 (which \<open>0 < chunk_overlap < chunk_size\<close>
  implies) every returned chunk has a text that is not empty after stripping
  whitespace: the splitter emits a piece only when it is not empty after stripping, and
  removing the page markers from such a piece leaves its last character in place.
\<close>

theorem chunk_text_not_blank:
  "(1 < chunk_size \<longrightarrow> create_document_chunks all_text md chunk_size chunk_overlap = Inr docs \<longrightarrow>
      (\<forall>d\<in>set docs. strip (page_content d) \<noteq> [])) \<and>
   (1 < arg_or size_arg 1000 \<longrightarrow>
    fst (process_document_from_bytes threshold lib w doc_bytes filename size_arg overlap_arg) = Inr docs' \<longrightarrow>
      (\<forall>d\<in>set docs'. strip (page_content d) \<noteq> []))"
proof (intro conjI impI)
  assume "1 < chunk_size" "create_document_chunks all_text md chunk_size chunk_overlap = Inr docs"
  then show "\<forall>d\<in>set docs. strip (page_content d) \<noteq> []"
    by (rule create_document_chunks_nonblank)
next
  assume s: "1 < arg_or size_arg 1000"
    and "fst (process_document_from_bytes threshold lib w doc_bytes filename size_arg overlap_arg) = Inr docs'"
  from process_document_from_bytes_cases [OF this(2)]
  show "\<forall>d\<in>set docs'. strip (page_content d) \<noteq> []"
    using create_document_chunks_nonblank [OF s] by (auto simp: set_source_simps)
qed

theorem chunk_text_not_blank_witness:
  "(1::nat) < 12 \<and> create_document_chunks sample_pages sample_metadata 12 2 = Inr sample_chunks \<and>
   list_all (\<lambda>d. strip (page_content d) \<noteq> []) sample_chunks \<and>
   1 < arg_or None (1000::nat) \<and>
   fst (process_document_from_bytes 3000 sample_parsers empty_world ''%PDF'' ''x.PDF'' None None) =
     Inr sample_pdf_chunks \<and>
   list_all (\<lambda>d. strip (page_content d) \<noteq> []) sample_pdf_chunks"
proof -
  have a: "1 < arg_or None (1000::nat)" by (simp add: arg_or_def)
  show ?thesis
    unfolding list_all_iff
    using chunk_text_not_blank [of 12 sample_pages sample_metadata 2 sample_chunks None
            3000 sample_parsers empty_world "''%PDF''" "''x.PDF''" None sample_pdf_chunks]
          sample_chunks_run sample_pdf_run a
    by simp
qed

section \<open>A text shorter than the chunk size\<close>

lemma split_on_not_Nil: "split_on sep t \<noteq> []"
  by (induction sep t rule: split_on.induct) (auto split: list.splits)

lemma join_Cons: "join sep (x # xs) = (if xs = [] then x else x @ sep @ join sep xs)"
  by (cases xs) simp_all

lemma join_split_on: "join sep (split_on sep t) = t"
proof (induction sep t rule: split_on.induct)
  case (1 sep)
  show ?case by simp
next
  case (2 sep c cs)
  show ?case
  proof (cases "sep \<noteq> [] \<and> prefix sep (c # cs)")
    case True
    then obtain zs where z: "c # cs = sep @ zs" by (auto simp: prefix_def)
    then have d: "drop (length sep) (c # cs) = zs" by (metis append_eq_conv_conj)
    from "2.IH"(1) [OF True] d have j: "join sep (split_on sep zs) = zs" by simp
    have "split_on sep (c # cs) = [] # split_on sep zs" using True d by simp
    then have "join sep (split_on sep (c # cs)) = sep @ join sep (split_on sep zs)"
      using split_on_not_Nil [of sep zs] by (simp add: join_Cons)
    with j z show ?thesis by simp
  next
    case False
    obtain p ps where s: "split_on sep cs = p # ps"
      using split_on_not_Nil [of sep cs] by (cases "split_on sep cs") auto
    from "2.IH"(2) [OF False] s have "join sep (p # ps) = cs" by simp
    then have "join sep ((c # p) # ps) = c # cs" by (auto simp: join_Cons split: if_splits)
    moreover have "split_on sep (c # cs) = (c # p) # ps" using False s by auto
    ultimately show ?thesis by simp
  qed
qed

lemma concat_filter_nonempty: "concat (filter (\<lambda>s. s \<noteq> []) xs) = concat xs"
  by (induction xs) simp_all

lemma concat_sep_pieces: "t0 @ concat (map (\<lambda>t. sep @ t) ts) = join sep (t0 # ts)"
  by (induction ts arbitrary: t0) (simp_all add: join_Cons)

lemma concat_split_text_with_regex: "concat (split_text_with_regex t s) = t"
proof (cases "s = []")
  case True
  then show ?thesis
    by (simp add: split_text_with_regex_def concat_filter_nonempty concat_map_singleton)
next
  case False
  obtain t0 ts where s: "split_on s t = t0 # ts"
    using split_on_not_Nil [of s t] by (cases "split_on s t") auto
  have "concat (t0 # map (\<lambda>t. s @ t) ts) = join s (t0 # ts)"
    using concat_sep_pieces [of t0 s ts] by simp
  then have "concat (t0 # map (\<lambda>t. s @ t) ts) = t"
    using s join_split_on [of s t] by simp
  moreover have "split_text_with_regex t s = filter (\<lambda>s. s \<noteq> []) (t0 # map (\<lambda>t. s @ t) ts)"
    using s False by (simp add: split_text_with_regex_def)
  ultimately show ?thesis by (simp only: concat_filter_nonempty)
qed

lemma length_piece_le: "p \<in> set ps \<Longrightarrow> length p \<le> length (concat ps)"
  by (induction ps) auto

lemma split_text_with_regex_length:
  "p \<in> set (split_text_with_regex t s) \<Longrightarrow> length p \<le> length t"
  using length_piece_le [of p "split_text_with_regex t s"]
  by (simp add: concat_split_text_with_regex)

lemma process_splits_good:
  "\<forall>p\<in>set ps. length p < cs \<Longrightarrow>
     process_splits cs co recurse good ps =
       (if good @ ps \<noteq> [] then merge_splits cs co (good @ ps) [] else [])"
  by (induction ps arbitrary: good) simp_all

lemma merge_loop_all_fit:
  "tot = length (concat cur) \<Longrightarrow> length (concat cur) + length (concat ds) \<le> cs \<Longrightarrow>
     merge_loop cs co [] ds cur tot = emit (cur @ ds) []"
proof (induction ds arbitrary: cur tot)
  case Nil
  then show ?case by simp
next
  case (Cons d ds)
  have "cur = [] \<or> \<not> cs < tot + length d + length ([]::string)"
    using Cons.prems by simp
  then have "merge_step cs co [] d cur tot =
            ([], cur @ [d], tot + length d + (if cur \<noteq> [] then length ([]::string) else 0))"
    by (rule merge_step_append)
  then have step: "merge_step cs co [] d cur tot = ([], cur @ [d], tot + length d)" by simp
  have "merge_loop cs co [] ds (cur @ [d]) (tot + length d) = emit ((cur @ [d]) @ ds) []"
    using Cons.prems by (intro Cons.IH) simp_all
  with step show ?case by simp
qed

lemma merge_splits_all_fit:
  "length (concat ps) \<le> cs \<Longrightarrow> merge_splits cs co ps [] = emit ps []"
  unfolding merge_splits_def using merge_loop_all_fit [of 0 "[]" ps cs co] by simp

lemma emit_empty_sep: "emit ps [] = (if strip (concat ps) = [] then [] else [strip (concat ps)])"
  by (simp add: emit_def join_docs_def join_empty_sep Let_def)

lemma strip_Nil [simp]: "strip [] = []"
  by (simp add: strip_def lstrip_def rstrip_def)

lemma split_pieces_short:
  assumes "length t < cs"
  shows "process_splits cs co recurse [] (split_text_with_regex t s) =
           (if strip t = [] then [] else [strip t])"
proof -
  let ?ps = "split_text_with_regex t s"
  have "\<forall>p\<in>set ?ps. length p < cs"
    using split_text_with_regex_length [of _ t s] assms by fastforce
  then have "process_splits cs co recurse [] ?ps =
               (if ?ps \<noteq> [] then merge_splits cs co ?ps [] else [])"
    using process_splits_good [of ?ps cs co recurse "[]"] by simp
  moreover have "merge_splits cs co ?ps [] = emit ?ps []"
    using assms by (intro merge_splits_all_fit) (simp add: concat_split_text_with_regex)
  moreover have "?ps = [] \<Longrightarrow> t = []"
    using concat_split_text_with_regex [of t s] by simp
  ultimately show ?thesis
    by (auto simp: emit_empty_sep concat_split_text_with_regex)
qed

lemma split_text_rec_short:
  assumes "length t < cs" and "seps \<noteq> []"
  shows "split_text_rec cs co seps t = (if strip t = [] then [] else [strip t])"
  using assms(2)
proof (induction seps)
  case Nil
  then show ?case by simp
next
  case (Cons s rest)
  show ?case
  proof (cases "rest = []")
    case True
    then show ?thesis using split_pieces_short [OF assms(1)] by simp
  next
    case False
    with Cons.IH have "split_text_rec cs co rest t = (if strip t = [] then [] else [strip t])"
      by simp
    then show ?thesis using split_pieces_short [OF assms(1)] by simp
  qed
qed

lemma split_text_short:
  "length t < cs \<Longrightarrow> split_text cs co t = (if strip t = [] then [] else [strip t])"
  unfolding split_text_def by (rule split_text_rec_short) (simp_all add: separators_def)

section \<open>Page numbers and their markers\<close>

lemma digit_char_table:
  "\<forall>d\<in>set [0..<10]. isdigit (digit_char d) \<and> (of_char (digit_char d) :: nat) = 48 + d"
  by code_simp

lemma digit_char_digit: "d < 10 \<Longrightarrow> isdigit (digit_char d)"
  and of_char_digit_char: "d < 10 \<Longrightarrow> (of_char (digit_char d) :: nat) = 48 + d"
  using digit_char_table by simp_all

lemma str_nat_digits: "\<forall>c\<in>set (str_nat n). isdigit c"
proof (induction n rule: str_nat.induct)
  case (1 n)
  show ?case
  proof (cases "n < 10")
    case True
    then show ?thesis by (subst str_nat.simps) (simp add: digit_char_digit)
  next
    case False
    with 1 show ?thesis by (subst str_nat.simps) (simp add: digit_char_digit)
  qed
qed

lemma str_nat_not_Nil: "str_nat n \<noteq> []"
  by (subst str_nat.simps) simp

lemma int_of_digits_snoc:
  "int_of_digits (ds @ [c]) = 10 * int_of_digits ds + (of_char c - 48)"
  by (simp add: int_of_digits_def)

lemma int_of_digits_str_nat: "int_of_digits (str_nat n) = n"
proof (induction n rule: str_nat.induct)
  case (1 n)
  show ?case
  proof (cases "n < 10")
    case True
    then have "str_nat n = [digit_char n]" by (subst str_nat.simps) simp
    with True show ?thesis by (simp add: int_of_digits_def of_char_digit_char)
  next
    case False
    then have s: "str_nat n = str_nat (n div 10) @ [digit_char (n mod 10)]"
      by (subst str_nat.simps) simp
    from 1 False have "int_of_digits (str_nat (n div 10)) = n div 10" by simp
    then show ?thesis by (simp add: s int_of_digits_snoc of_char_digit_char)
  qed
qed

lemma isdigit_not_space: "isdigit c \<Longrightarrow> \<not> isspace c"
  by (auto simp: isdigit_def isspace_def)

lemma colon_not_digit [simp]: "\<not> isdigit (CHR '':'')"
  by (simp add: isdigit_def)

lemma colon_not_space [simp]: "\<not> isspace (CHR '':'')"
  by (simp add: isspace_def)

lemma P_not_space [simp]: "\<not> isspace (CHR ''P'')"
  by (simp add: isspace_def)

lemma newline_space [simp]: "isspace (CHR 0x0A)"
  by (simp add: isspace_def)

lemma newline_not_digit [simp]: "\<not> isdigit (CHR 0x0A)"
  by (simp add: isdigit_def)

lemma match_page_marker_digits:
  assumes "ds \<noteq> []" and "\<forall>d\<in>set ds. isdigit d"
  shows "match_page_marker (''Page '' @ ds @ CHR '':'' # r) = Some (ds, r)"
proof -
  have t: "takeWhile isdigit (ds @ CHR '':'' # r) = ds"
    using assms(2) by (simp add: takeWhile_append2)
  have d: "dropWhile isdigit (ds @ CHR '':'' # r) = CHR '':'' # r"
    using assms(2) by (simp add: dropWhile_append2)
  show ?thesis using assms(1) t d by (simp add: match_page_marker_def Let_def)
qed

lemma match_page_marker_append:
  assumes "match_page_marker x = Some (ds, r)"
  shows "match_page_marker (x @ q) = Some (ds, r @ q)"
proof -
  from match_page_marker_Some [OF assms]
  have x: "x = ''Page '' @ ds @ CHR '':'' # r" and ds: "ds \<noteq> []" "\<forall>d\<in>set ds. isdigit d" by blast+
  have "x @ q = ''Page '' @ ds @ CHR '':'' # (r @ q)" by (subst x) simp
  with match_page_marker_digits [OF ds] show ?thesis by simp
qed

lemma page_num_of_page_line: "page_num_of (page_line p) = page p"
proof -
  have "page_line p = ''Page '' @ str_nat (page p) @ CHR '':'' # (CHR '' '' # page_text p)"
    by (simp add: page_line_def)
  with match_page_marker_digits [OF str_nat_not_Nil str_nat_digits]
  show ?thesis by (simp add: page_num_of_def int_of_digits_str_nat)
qed

section \<open>Stripping keeps a leading marker\<close>

lemma lstrip_append:
  assumes "lstrip p \<noteq> []"
  shows "lstrip (p @ q) = lstrip p @ q"
proof -
  from assms obtain x where "x \<in> set p" "\<not> isspace x"
    by (auto simp: lstrip_def dropWhile_eq_Nil_conv)
  then show ?thesis by (simp add: lstrip_def dropWhile_append1)
qed

lemma rstrip_append:
  assumes "a \<noteq> []" and "\<not> isspace (last a)"
  shows "rstrip (a @ b) = a @ rstrip b"
proof (cases "\<forall>c\<in>set b. isspace c")
  case True
  then have "dropWhile isspace (rev b @ rev a) = dropWhile isspace (rev a)"
    by (intro dropWhile_append2) simp
  moreover have "dropWhile isspace (rev a) = rev a"
    using assms by (cases "rev a") (auto simp: last_rev hd_rev)
  moreover have "dropWhile isspace (rev b) = []" using True by (simp add: dropWhile_eq_Nil_conv)
  ultimately show ?thesis by (simp add: rstrip_def)
next
  case False
  then obtain x where "x \<in> set (rev b)" "\<not> isspace x" by auto
  then have "dropWhile isspace (rev b @ rev a) = dropWhile isspace (rev b) @ rev a"
    by (rule dropWhile_append1)
  then show ?thesis by (simp add: rstrip_def)
qed

lemma page_num_of_strip_append:
  assumes "starts_marked p"
  shows "page_num_of (strip (p @ q)) = piece_page p"
proof -
  from assms obtain ds r where m: "match_page_marker (lstrip p) = Some (ds, r)"
    by (auto simp: starts_marked_def)
  from match_page_marker_Some [OF m]
  have x: "lstrip p = ''Page '' @ ds @ CHR '':'' # r" and ds: "ds \<noteq> []" "\<forall>d\<in>set ds. isdigit d"
    by blast+
  then have "lstrip p \<noteq> []" by simp
  then have "lstrip (p @ q) = lstrip p @ q" by (rule lstrip_append)
  then have "strip (p @ q) = rstrip ((''Page '' @ ds @ '':'') @ (r @ q))"
    by (simp add: strip_def x)
  also have "\<dots> = (''Page '' @ ds @ '':'') @ rstrip (r @ q)"
    by (rule rstrip_append) simp_all
  finally have "strip (p @ q) = ''Page '' @ ds @ CHR '':'' # rstrip (r @ q)" by simp
  with match_page_marker_digits [OF ds] m show ?thesis
    by (simp add: page_num_of_def piece_page_def)
qed

lemma starts_marked_nonblank:
  assumes "starts_marked p"
  shows "strip (p @ q) \<noteq> []"
proof -
  from assms obtain ds r where m: "match_page_marker (lstrip p) = Some (ds, r)"
    by (auto simp: starts_marked_def)
  from match_page_marker_Some(1) [OF m] have "CHR ''P'' \<in> set (lstrip p)" by simp
  then have "CHR ''P'' \<in> set p" by (auto simp: lstrip_def dest: set_dropWhileD)
  then have "\<exists>x\<in>set (p @ q). \<not> isspace x" by (intro bexI [of _ "CHR ''P''"]) simp_all
  then show ?thesis by (simp only: strip_Nil_iff) blast
qed

section \<open>Pages of the merged pieces\<close>

lemma pop_loop_suffix:
  "pop_loop cs co sl len cur tot = (cur', tot') \<Longrightarrow> suffix cur' cur"
proof (induction cs co sl len cur tot rule: pop_loop.induct)
  case (1 cs co sl len tot)
  then show ?case by simp
next
  case (2 cs co sl len x xs tot)
  show ?case
  proof (cases "tot > co \<or> (tot + len + sl > cs \<and> tot > 0)")
    case True
    with "2.prems" have "pop_loop cs co sl len xs (tot - (length x + (if xs \<noteq> [] then sl else 0))) = (cur', tot')"
      by (simp split: if_splits)
    from "2.IH" [OF True this] show ?thesis by (rule suffix_ConsI)
  next
    case False
    with "2.prems" have "cur' = x # xs" by (auto split: if_splits)
    then show ?thesis by simp
  qed
qed

lemma sorted_hd_le: "sorted xs \<Longrightarrow> x \<in> set xs \<Longrightarrow> hd xs \<le> x"
  by (cases xs) auto

lemma emit_marked:
  assumes "cur \<noteq> []" and "starts_marked (hd cur)"
  shows "emit cur [] = [strip (concat cur)]" and "page_num_of (strip (concat cur)) = piece_page (hd cur)"
proof -
  from assms(1) have c: "concat cur = hd cur @ concat (tl cur)" by (cases cur) simp_all
  show "page_num_of (strip (concat cur)) = piece_page (hd cur)"
    using page_num_of_strip_append [OF assms(2)] c by simp
  show "emit cur [] = [strip (concat cur)]"
    using starts_marked_nonblank [OF assms(2)] c by (simp add: emit_empty_sep)
qed

lemma merge_loop_pages:
  assumes "\<forall>p\<in>set (cur @ ds). starts_marked p" and "sorted (map piece_page (cur @ ds))"
  shows "sorted (map page_num_of (merge_loop cs co [] ds cur tot)) \<and>
         (\<forall>c\<in>set (merge_loop cs co [] ds cur tot). piece_page (hd (cur @ ds)) \<le> page_num_of c)"
  using assms
proof (induction ds arbitrary: cur tot)
  case Nil
  show ?case
  proof (cases "cur = []")
    case True
    then show ?thesis by (simp add: emit_empty_sep)
  next
    case False
    with Nil.prems have "starts_marked (hd cur)" by simp
    from emit_marked [OF False this] show ?thesis by simp
  qed
next
  case (Cons d ds)
  let ?all = "cur @ d # ds"
  have hd_le: "\<And>q. q \<in> set ?all \<Longrightarrow> piece_page (hd ?all) \<le> piece_page q"
  proof -
    fix q assume "q \<in> set ?all"
    then have "piece_page q \<in> piece_page ` set ?all" by (rule imageI)
    then have "piece_page q \<in> set (map piece_page ?all)" by (simp only: set_map)
    from sorted_hd_le [OF Cons.prems(2) this]
    have "hd (map piece_page ?all) \<le> piece_page q" .
    moreover have "hd (map piece_page ?all) = piece_page (hd ?all)" by (rule hd_map) simp
    ultimately show "piece_page (hd ?all) \<le> piece_page q" by simp
  qed
  show ?case
  proof (cases "cur \<noteq> [] \<and> cs < tot + length d + length ([]::string)")
    case True
    obtain cur' tot' where p: "pop_loop cs co (length ([]::string)) (length d) cur tot = (cur', tot')"
      by (cases "pop_loop cs co (length ([]::string)) (length d) cur tot")
    have "merge_step cs co [] d cur tot =
            (emit cur [], cur' @ [d], tot' + length d + (if cur' \<noteq> [] then length ([]::string) else 0))"
      using True p by (intro merge_step_flush) simp_all
    then have step: "merge_step cs co [] d cur tot = (emit cur [], cur' @ [d], tot' + length d)"
      by simp
    from pop_loop_suffix [OF p] obtain zs where cur: "cur = zs @ cur'" by (auto simp: suffix_def)
    let ?rest = "merge_loop cs co [] ds (cur' @ [d]) (tot' + length d)"
    have sub: "set ((cur' @ [d]) @ ds) \<subseteq> set ?all" using cur by auto
    have m': "\<forall>p\<in>set ((cur' @ [d]) @ ds). starts_marked p" using Cons.prems(1) sub by blast
    have "sorted (map piece_page zs @ map piece_page ((cur' @ [d]) @ ds))"
      using Cons.prems(2) cur by simp
    then have s': "sorted (map piece_page ((cur' @ [d]) @ ds))"
      unfolding sorted_append [of "map piece_page zs"] by blast
    from Cons.IH [OF m' s']
    have r1: "sorted (map page_num_of ?rest)"
      and r2: "\<forall>c\<in>set ?rest. piece_page (hd ((cur' @ [d]) @ ds)) \<le> page_num_of c" by blast+
    have "hd ((cur' @ [d]) @ ds) \<in> set ?all" using sub by (cases cur') auto
    from hd_le [OF this] r2
    have r3: "\<forall>c\<in>set ?rest. piece_page (hd ?all) \<le> page_num_of c" by (meson le_trans)
    have hc: "hd ?all = hd cur" using True by simp
    have "starts_marked (hd cur)" using Cons.prems(1) True by simp
    from emit_marked [OF _ this] True
    have e: "emit cur [] = [strip (concat cur)]"
      and pe: "page_num_of (strip (concat cur)) = piece_page (hd cur)" by simp_all
    have "merge_loop cs co [] (d # ds) cur tot = strip (concat cur) # ?rest"
      using step e by simp
    with r1 r3 pe hc show ?thesis by simp
  next
    case False
    then have "cur = [] \<or> \<not> cs < tot + length d + length ([]::string)" by blast
    then have "merge_step cs co [] d cur tot =
            ([], cur @ [d], tot + length d + (if cur \<noteq> [] then length ([]::string) else 0))"
      by (rule merge_step_append)
    then have step: "merge_step cs co [] d cur tot = ([], cur @ [d], tot + length d)" by simp
    from Cons.IH [of "cur @ [d]" "tot + length d"] Cons.prems
    have "sorted (map page_num_of (merge_loop cs co [] ds (cur @ [d]) (tot + length d))) \<and>
          (\<forall>c\<in>set (merge_loop cs co [] ds (cur @ [d]) (tot + length d)).
              piece_page (hd ((cur @ [d]) @ ds)) \<le> page_num_of c)" by simp
    with step show ?thesis by simp
  qed
qed

lemma merge_splits_pages:
  assumes "\<forall>p\<in>set ps. starts_marked p" and "sorted (map piece_page ps)"
  shows "sorted (map page_num_of (merge_splits cs co ps []))"
  unfolding merge_splits_def using merge_loop_pages [of "[]" ps cs co 0] assms by simp

section \<open>Pages that fit into a chunk\<close>

lemma split_on_line:
  "CHR 0x0A \<notin> set x \<Longrightarrow>
     split_on [CHR 0x0A, CHR 0x0A] (x @ [CHR 0x0A, CHR 0x0A] @ rest) =
       x # split_on [CHR 0x0A, CHR 0x0A] rest"
  by (induction x) auto

lemma split_on_single: "CHR 0x0A \<notin> set x \<Longrightarrow> split_on [CHR 0x0A, CHR 0x0A] x = [x]"
  by (induction x) auto

lemma split_on_join_lines:
  "xs \<noteq> [] \<Longrightarrow> \<forall>x\<in>set xs. CHR 0x0A \<notin> set x \<Longrightarrow>
     split_on [CHR 0x0A, CHR 0x0A] (join [CHR 0x0A, CHR 0x0A] xs) = xs"
proof (induction xs)
  case Nil
  then show ?case by simp
next
  case (Cons x xs)
  show ?case
  proof (cases "xs = []")
    case True
    with Cons.prems show ?thesis by (simp add: split_on_single)
  next
    case False
    with Cons have "split_on [CHR 0x0A, CHR 0x0A] (join [CHR 0x0A, CHR 0x0A] xs) = xs" by simp
    moreover have "join [CHR 0x0A, CHR 0x0A] (x # xs) =
        x @ [CHR 0x0A, CHR 0x0A] @ join [CHR 0x0A, CHR 0x0A] xs"
      using False by (simp add: join_Cons)
    ultimately show ?thesis using Cons.prems(2) split_on_line [of x] by simp
  qed
qed

lemma contains_append: "sep \<noteq> [] \<Longrightarrow> contains sep (a @ sep @ b)"
proof (induction a)
  case Nil
  then show ?case by (cases sep) simp_all
next
  case (Cons c a)
  then show ?case by simp
qed

lemma page_line_no_newline:
  assumes "CHR 0x0A \<notin> set (page_text p)"
  shows "CHR 0x0A \<notin> set (page_line p)"
proof -
  have "CHR 0x0A \<notin> set (str_nat (page p))" using str_nat_digits newline_not_digit by blast
  with assms show ?thesis by (simp add: page_line_def)
qed

lemma page_line_marked: "starts_marked (page_line p)" "piece_page (page_line p) = page p"
proof -
  have l: "lstrip (page_line p) = page_line p" by (simp add: lstrip_def page_line_def)
  have "page_line p = ''Page '' @ str_nat (page p) @ CHR '':'' # (CHR '' '' # page_text p)"
    by (simp add: page_line_def)
  with match_page_marker_digits [OF str_nat_not_Nil str_nat_digits]
  have "match_page_marker (page_line p) \<noteq> None" by simp
  with l show "starts_marked (page_line p)" by (simp add: starts_marked_def)
  show "piece_page (page_line p) = page p" by (simp add: piece_page_def l page_num_of_page_line)
qed

lemma separated_page_line_marked:
  "starts_marked ([CHR 0x0A, CHR 0x0A] @ page_line p)"
  "piece_page ([CHR 0x0A, CHR 0x0A] @ page_line p) = page p"
proof -
  have "lstrip ([CHR 0x0A, CHR 0x0A] @ page_line p) = lstrip (page_line p)"
    by (simp add: lstrip_def)
  with page_line_marked [of p]
  show "starts_marked ([CHR 0x0A, CHR 0x0A] @ page_line p)"
    "piece_page ([CHR 0x0A, CHR 0x0A] @ page_line p) = page p"
    by (simp_all add: starts_marked_def piece_page_def)
qed

lemma split_text_of_short_pages:
  assumes fits: "\<forall>p\<in>set (q # qs). length (page_line p) + 2 < cs"
      and nonl: "\<forall>p\<in>set (q # qs). CHR 0x0A \<notin> set (page_text p)"
      and two: "qs \<noteq> []"
  shows "split_text cs co (combined_text (q # qs)) =
           merge_splits cs co (page_line q # map (\<lambda>p. [CHR 0x0A, CHR 0x0A] @ page_line p) qs) []"
proof -
  let ?nl = "[CHR 0x0A, CHR 0x0A]"
  let ?t = "combined_text (q # qs)"
  let ?pieces = "page_line q # map (\<lambda>p. ?nl @ page_line p) qs"
  have lines: "\<forall>x\<in>set (map page_line (q # qs)). CHR 0x0A \<notin> set x"
    using nonl page_line_no_newline by auto
  have "split_on ?nl ?t = map page_line (q # qs)"
    unfolding combined_text_def by (rule split_on_join_lines [OF _ lines]) simp
  then have "split_text_with_regex ?t ?nl =
      filter (\<lambda>s. s \<noteq> []) (page_line q # map (\<lambda>t. ?nl @ t) (map page_line qs))"
    by (simp add: split_text_with_regex_def)
  also have "\<dots> = ?pieces"
    by (simp add: page_line_def comp_def)
  finally have pieces: "split_text_with_regex ?t ?nl = ?pieces" .
  obtain r rs where qs: "qs = r # rs" using two by (cases qs) auto
  have "?t = page_line q @ ?nl @ join ?nl (map page_line qs)"
    by (simp add: combined_text_def qs)
  then have c: "contains ?nl ?t" using contains_append [of ?nl] by simp
  have short: "\<forall>p\<in>set ?pieces. length p < cs" using fits by auto
  have rec: "split_text_rec cs co (?nl # rest) ?t =
      process_splits cs co
        (if rest = [] then None else Some (\<lambda>piece. split_text_rec cs co rest piece)) []
        (split_text_with_regex ?t ?nl)" for rest
    using c by simp
  have "process_splits cs co recurse [] ?pieces = merge_splits cs co ?pieces []" for recurse
    using process_splits_good [OF short, of co recurse "[]"] by simp
  then show ?thesis
    unfolding split_text_def separators_def rec pieces .
qed

lemma split_text_pages_sorted:
  assumes "sorted (map page all_text)"
      and "\<forall>p\<in>set all_text. length (page_line p) + 2 < cs"
      and "\<forall>p\<in>set all_text. CHR 0x0A \<notin> set (page_text p)"
  shows "sorted (map page_num_of (split_text cs co (combined_text all_text)))"
proof (cases all_text)
  case Nil
  have "split_text cs co [] = []"
    by (simp add: split_text_def separators_def split_text_with_regex_def)
  with Nil show ?thesis by (simp add: combined_text_def)
next
  case (Cons q qs)
  show ?thesis
  proof (cases "qs = []")
    case True
    then have "combined_text all_text = page_line q" by (simp add: Cons combined_text_def)
    moreover have "length (page_line q) < cs" using assms(2) Cons by simp
    ultimately show ?thesis using split_text_short [of "page_line q" cs co] by simp
  next
    case False
    let ?pieces = "page_line q # map (\<lambda>p. [CHR 0x0A, CHR 0x0A] @ page_line p) qs"
    have "split_text cs co (combined_text all_text) = merge_splits cs co ?pieces []"
      using split_text_of_short_pages [OF _ _ False, of q cs co] assms(2,3) Cons by simp
    moreover have "\<forall>p\<in>set ?pieces. starts_marked p"
      using page_line_marked(1) separated_page_line_marked(1) by auto
    moreover have "map piece_page ?pieces = map page all_text"
      using page_line_marked(2) separated_page_line_marked(2) by (simp add: Cons comp_def)
    ultimately show ?thesis using merge_splits_pages [of ?pieces cs co] assms(1) by simp
  qed
qed

lemma create_document_chunks_page_number:
  assumes "''page'' \<notin> fst ` set md"
      and "create_document_chunks all_text md cs co = Inr docs"
  shows "map page_number docs = map page_num_of (split_text cs co (combined_text all_text))"
proof -
  from create_document_chunks_Inr [OF assms(2)]
  have m: "make_documents md 0 (split_text cs co (combined_text all_text)) = Inr docs" by simp
  have "map page_number docs = map (\<lambda>d. case d of Some (PInt n) \<Rightarrow> n | _ \<Rightarrow> 0) (map page_of docs)"
    by (simp add: page_number_def comp_def)
  also have "\<dots> = map page_num_of (split_text cs co (combined_text all_text))"
    by (simp only: make_documents_page [OF assms(1) m]) (simp add: comp_def)
  finally show ?thesis .
qed

section \<open>Page values\<close>

lemma fitting_chunks_run:
  "create_document_chunks sample_pages sample_metadata 30 5 = Inr fitting_chunks"
  by code_simp

lemma strip_subset: "set (strip s) \<subseteq> set s"
proof -
  have "set (strip s) \<subseteq> set (lstrip s)"
    using set_dropWhileD [of _ isspace "rev (lstrip s)"] by (auto simp: strip_def rstrip_def)
  also have "\<dots> \<subseteq> set s" by (auto simp: lstrip_def dest: set_dropWhileD)
  finally show ?thesis .
qed

lemma collapse_whitespace_spaces:
  "c \<in> set (collapse_whitespace s) \<Longrightarrow> isspace c \<Longrightarrow> c = CHR '' ''"
  by (induction s rule: collapse_whitespace.induct) (auto split: if_splits)

lemma pdf_page_text_no_newline: "CHR 0x0A \<notin> set (pdf_page_text blocks)"
proof
  assume "CHR 0x0A \<in> set (pdf_page_text blocks)"
  then have "CHR 0x0A \<in> set (collapse_whitespace (join [CHR 0x0A] (block_texts (sort_key y0 blocks))))"
    using strip_subset unfolding pdf_page_text_def by blast
  from collapse_whitespace_spaces [OF this] show False by simp
qed

lemma pdf_all_text_pages:
  "sorted (map page (pdf_all_text i pages)) \<and> (\<forall>p\<in>set (pdf_all_text i pages). i < page p)"
proof (induction pages arbitrary: i)
  case Nil
  show ?case by simp
next
  case (Cons b bs)
  from Cons.IH [of "i + 1"] show ?case by (auto simp: less_imp_le)
qed

lemma pdf_all_text_no_newline:
  "\<forall>p\<in>set (pdf_all_text i pages). CHR 0x0A \<notin> set (page_text p)"
  by (induction pages arbitrary: i) (auto simp: pdf_page_text_no_newline)

lemma process_pdf_cases:
  assumes "snd (splitext (lower filename)) = ''.pdf''"
      and "fitz_open lib doc_bytes = Inr pdf"
      and "fst (process_document_from_bytes threshold lib w doc_bytes filename size_arg overlap_arg) = Inr docs"
  shows "docs = [] \<or> (\<exists>md docs0. pipeline_metadata md \<and>
           create_document_chunks (pdf_all_text 0 (pdf_pages pdf)) md
             (arg_or size_arg 1000) (arg_or overlap_arg 100) = Inr docs0 \<and>
           docs = map (set_source filename) docs0)"
proof -
  let ?tp = "temp_stem lib @ ''.pdf''"
  let ?w1 = "w\<lparr>files := (files w)(?tp \<mapsto> doc_bytes)\<rparr>"
  let ?r = "fst (extract_text_from_pdf lib ?w1 ?tp (arg_or size_arg 1000) (arg_or overlap_arg 100))"
  have t: "NamedTemporaryFile lib (snd (splitext (lower filename))) = Inr ?tp"
    using assms(1) by (simp add: NamedTemporaryFile_supported)
  from assms(1,3) obtain docs0 where r: "?r = Inr docs0" and d: "docs = map (set_source filename) docs0"
    by (auto simp: process_document_from_bytes_dispatch [OF t] dispatch_def Let_def split: sum.splits)
  have "docs0 = [] \<or> create_document_chunks (pdf_all_text 0 (pdf_pages pdf))
          (pdf_doc_metadata pdf ?tp) (arg_or size_arg 1000) (arg_or overlap_arg 100) = Inr docs0"
    using r assms(2) by (auto simp: extract_text_from_pdf_def Let_def split: if_splits)
  with d pdf_doc_metadata_std [of pdf ?tp] show ?thesis by auto
qed

lemma create_document_chunks_pages_sorted:
  assumes "''page'' \<notin> fst ` set md" and "sorted (map page all_text)"
      and "\<forall>p\<in>set all_text. length (page_line p) + 2 < cs"
      and "\<forall>p\<in>set all_text. CHR 0x0A \<notin> set (page_text p)"
      and "create_document_chunks all_text md cs co = Inr docs"
  shows "sorted (map page_number docs)"
  using create_document_chunks_page_number [OF assms(1,5)]
        split_text_pages_sorted [OF assms(2,3,4), of co] by simp

lemma page_number_set_source: "page_number (set_source f d) = page_number d"
  by (simp add: page_number_def set_source_simps)

text \<open>
  Claim C3 fails as stated: for the example pages, chunk size 12 and overlap 2 the page
  values are 1, 2, 0, 0.  The two chunks that continue page 2 do not start with a marker
  and get the page 0.
\<close>

theorem page_values_not_monotone:
  "create_document_chunks sample_pages sample_metadata 12 2 = Inr sample_chunks \<and>
   map page_number sample_chunks = [1, 2, 0, 0] \<and>
   \<not> sorted (map page_number sample_chunks)"
proof -
  have "map page_number sample_chunks = [1, 2, 0, 0]" by code_simp
  then show ?thesis using sample_chunks_run by simp
qed

text \<open>
  Claim C3, amended.  The page values of the returned chunks are non-decreasing when
  every page fits into a chunk together with its marker and the separator before it
  (\<open>length (page_line p) + 2 < chunk_size\<close>), no page text has a line break, and the
  page numbers of the input are non-decreasing: every chunk then starts with the marker
  of the first page it holds.  This is so for \<open>create_document_chunks\<close>, and for
  \<open>process_document_from_bytes\<close> on a PDF the cleaned page texts of which are that short
  (they never have a line break, and their numbers increase).
\<close>

theorem page_values_monotone_when_pages_fit:
  "(''page'' \<notin> fst ` set md \<longrightarrow> sorted (map page all_text) \<longrightarrow>
    (\<forall>p\<in>set all_text. length (page_line p) + 2 < chunk_size) \<longrightarrow>
    (\<forall>p\<in>set all_text. CHR 0x0A \<notin> set (page_text p)) \<longrightarrow>
    create_document_chunks all_text md chunk_size chunk_overlap = Inr docs \<longrightarrow>
      sorted (map page_number docs)) \<and>
   (snd (splitext (lower filename)) = ''.pdf'' \<longrightarrow> fitz_open lib doc_bytes = Inr pdf \<longrightarrow>
    (\<forall>p\<in>set (pdf_all_text 0 (pdf_pages pdf)). length (page_line p) + 2 < arg_or size_arg 1000) \<longrightarrow>
    fst (process_document_from_bytes threshold lib w doc_bytes filename size_arg overlap_arg) = Inr docs' \<longrightarrow>
      sorted (map page_number docs'))"
proof (intro conjI impI)
  assume "''page'' \<notin> fst ` set md" "sorted (map page all_text)"
    "\<forall>p\<in>set all_text. length (page_line p) + 2 < chunk_size"
    "\<forall>p\<in>set all_text. CHR 0x0A \<notin> set (page_text p)"
    "create_document_chunks all_text md chunk_size chunk_overlap = Inr docs"
  then show "sorted (map page_number docs)" by (rule create_document_chunks_pages_sorted)
next
  assume e: "snd (splitext (lower filename)) = ''.pdf''" and p: "fitz_open lib doc_bytes = Inr pdf"
    and fit: "\<forall>p\<in>set (pdf_all_text 0 (pdf_pages pdf)). length (page_line p) + 2 < arg_or size_arg 1000"
    and r: "fst (process_document_from_bytes threshold lib w doc_bytes filename size_arg overlap_arg) = Inr docs'"
  from process_pdf_cases [OF e p r] show "sorted (map page_number docs')"
  proof
    assume "docs' = []"
    then show ?thesis by simp
  next
    assume "\<exists>md docs0. pipeline_metadata md \<and>
           create_document_chunks (pdf_all_text 0 (pdf_pages pdf)) md
             (arg_or size_arg 1000) (arg_or overlap_arg 100) = Inr docs0 \<and>
           docs' = map (set_source filename) docs0"
    then obtain md docs0 where md: "pipeline_metadata md"
      and c: "create_document_chunks (pdf_all_text 0 (pdf_pages pdf)) md
             (arg_or size_arg 1000) (arg_or overlap_arg 100) = Inr docs0"
      and d: "docs' = map (set_source filename) docs0" by blast
    have k: "''page'' \<notin> fst ` set md" using md by (simp add: pipeline_metadata_def)
    have s: "sorted (map page (pdf_all_text 0 (pdf_pages pdf)))" using pdf_all_text_pages by blast
    have "sorted (map page_number docs0)"
      using create_document_chunks_pages_sorted [OF k s fit pdf_all_text_no_newline c] .
    moreover have "map page_number docs' = map page_number docs0"
      using d by (simp add: comp_def page_number_set_source)
    ultimately show ?thesis by simp
  qed
qed

lemma sample_pages_fit:
  "''page'' \<notin> fst ` set sample_metadata"
  "sorted (map page sample_pages)"
  "list_all (\<lambda>p. length (page_line p) + 2 < 30) sample_pages"
  "list_all (\<lambda>p. CHR 0x0A \<notin> set (page_text p)) sample_pages"
  "snd (splitext (lower ''x.PDF'')) = ''.pdf''"
  "list_all (\<lambda>p. length (page_line p) + 2 < arg_or None 1000) (pdf_all_text 0 (pdf_pages sample_pdf))"
  by code_simp+

theorem page_values_monotone_when_pages_fit_witness:
  "''page'' \<notin> fst ` set sample_metadata \<and> sorted (map page sample_pages) \<and>
   list_all (\<lambda>p. length (page_line p) + 2 < 30) sample_pages \<and>
   list_all (\<lambda>p. CHR 0x0A \<notin> set (page_text p)) sample_pages \<and>
   create_document_chunks sample_pages sample_metadata 30 5 = Inr fitting_chunks \<and>
   sorted (map page_number fitting_chunks) \<and>
   snd (splitext (lower ''x.PDF'')) = ''.pdf'' \<and>
   fitz_open sample_parsers ''%PDF'' = Inr sample_pdf \<and>
   list_all (\<lambda>p. length (page_line p) + 2 < arg_or None 1000) (pdf_all_text 0 (pdf_pages sample_pdf)) \<and>
   fst (process_document_from_bytes 3000 sample_parsers empty_world ''%PDF'' ''x.PDF'' None None) =
     Inr sample_pdf_chunks \<and>
   sorted (map page_number sample_pdf_chunks)"
proof -
  have p: "fitz_open sample_parsers ''%PDF'' = Inr sample_pdf" by (simp add: sample_parsers_def)
  show ?thesis
    using page_values_monotone_when_pages_fit [of sample_metadata sample_pages 30 5 fitting_chunks
            "''x.PDF''" sample_parsers "''%PDF''" sample_pdf None 3000 empty_world None sample_pdf_chunks]
          sample_pages_fit fitting_chunks_run sample_pdf_run p
    unfolding list_all_iff by blast
qed

section \<open>Synthetic pages of a DOCX\<close>

lemma docx_all_text_fits:
  "length (cur @ concat (map (\<lambda>p. p @ [CHR 0x0A, CHR 0x0A]) ps)) \<le> threshold \<Longrightarrow>
     docx_all_text threshold cur n ps =
       (if strip (cur @ concat (map (\<lambda>p. p @ [CHR 0x0A, CHR 0x0A]) ps)) \<noteq> []
        then [\<lparr>page = n, page_text = strip (cur @ concat (map (\<lambda>p. p @ [CHR 0x0A, CHR 0x0A]) ps))\<rparr>]
        else [])"
proof (induction ps arbitrary: cur)
  case Nil
  show ?case by simp
next
  case (Cons para ps)
  from Cons.prems have "\<not> length (cur @ para @ [CHR 0x0A, CHR 0x0A]) > threshold" by simp
  moreover from Cons.prems
  have "length ((cur @ para @ [CHR 0x0A, CHR 0x0A]) @ concat (map (\<lambda>p. p @ [CHR 0x0A, CHR 0x0A]) ps))
          \<le> threshold" by simp
  note Cons.IH [OF this]
  ultimately show ?case by simp
qed




lemma paragraphs_text_nonblank: "p \<in> set (paragraphs_text doc) \<Longrightarrow> strip p \<noteq> []"
proof -
  assume "p \<in> set (paragraphs_text doc)"
  then obtain t where t: "p = strip t" "strip t \<noteq> []"
    by (auto simp: paragraphs_text_def stripped_nonblank_def)
  from strip_last [OF t(2)] t show ?thesis using strip_stripped_last by simp
qed


section \<open>A text that is not blank gives a chunk\<close>









section \<open>Removing the markers\<close>

lemma match_marker_space_digits:
  assumes "ds \<noteq> []" and "\<forall>d\<in>set ds. isdigit d"
  shows "match_marker_space (''Page '' @ ds @ '': '' @ r) = Some r"
proof -
  have "''Page '' @ ds @ '': '' @ r = ''Page '' @ ds @ CHR '':'' # (CHR '' '' # r)" by simp
  with match_page_marker_digits [OF assms, of "CHR '' '' # r"] show ?thesis
    by (simp add: match_marker_space_def)
qed

lemma marker_chars:
  assumes "\<forall>d\<in>set ds. isdigit d"
  shows "CHR 0x0A \<notin> set (''Page '' @ ds @ '': '')"
  using assms newline_not_digit by auto

lemma match_marker_space_append_None:
  assumes "match_marker_space s = None" and "r = [] \<or> hd r = CHR 0x0A"
  shows "match_marker_space (s @ r) = None"
proof (rule ccontr)
  assume "match_marker_space (s @ r) \<noteq> None"
  then obtain y where "match_marker_space (s @ r) = Some y" by auto
  from match_marker_space_Some [OF this] obtain ds where
    e: "s @ r = ''Page '' @ ds @ '': '' @ y" and ds: "ds \<noteq> []" "\<forall>d\<in>set ds. isdigit d" by blast
  let ?m = "''Page '' @ ds @ '': ''"
  from e have "s @ r = ?m @ y" by simp
  then obtain us where "(s = ?m @ us \<and> us @ r = y) \<or> (s @ us = ?m \<and> r = us @ y)"
    by (auto simp only: append_eq_append_conv2)
  then show False
  proof
    assume "s = ?m @ us \<and> us @ r = y"
    then have "s = ''Page '' @ ds @ '': '' @ us" by simp
    with match_marker_space_digits [OF ds, of us] assms(1) show False by simp
  next
    assume a: "s @ us = ?m \<and> r = us @ y"
    show False
    proof (cases "us = []")
      case True
      with a have "s = ''Page '' @ ds @ '': '' @ []" by simp
      with match_marker_space_digits [OF ds, of "[]"] assms(1) show False by simp
    next
      case False
      with a have "r \<noteq> []" "hd r = hd us" by auto
      with assms(2) have "hd us = CHR 0x0A" by simp
      with False have "CHR 0x0A \<in> set us" by (cases us) auto
      then have "CHR 0x0A \<in> set (s @ us)" by simp
      with a marker_chars [OF ds(2)] show False by (simp only:) 
    qed
  qed
qed

lemma re_sub_marker_free_append:
  "\<not> contains_marker t \<Longrightarrow> r = [] \<or> hd r = CHR 0x0A \<Longrightarrow>
     re_sub_marker (t @ r) = t @ re_sub_marker r"
proof (induction t)
  case Nil
  show ?case by simp
next
  case (Cons c t)
  from Cons.prems(1) have n: "match_marker_space (c # t) = None" and f: "\<not> contains_marker t"
    by simp_all
  from match_marker_space_append_None [OF n Cons.prems(2)]
  have "match_marker_space (c # (t @ r)) = None" by simp
  then have "re_sub_marker ((c # t) @ r) = c # re_sub_marker (t @ r)" by simp
  with Cons.IH [OF f Cons.prems(2)] show ?case by simp
qed

lemma match_marker_space_newline: "match_marker_space (CHR 0x0A # x) = None"
proof (rule ccontr)
  assume "match_marker_space (CHR 0x0A # x) \<noteq> None"
  then obtain y where "match_marker_space (CHR 0x0A # x) = Some y" by auto
  from match_marker_space_Some [OF this] obtain ds where
    "CHR 0x0A # x = ''Page '' @ ds @ '': '' @ y" by blast
  then show False by simp
qed

lemma re_sub_marker_newline: "re_sub_marker (CHR 0x0A # x) = CHR 0x0A # re_sub_marker x"
  by (simp only: re_sub_marker.simps match_marker_space_newline option.case)

lemma re_sub_marker_page_line:
  "re_sub_marker (page_line p @ r) = re_sub_marker (page_text p @ r)"
proof -
  define X where "X = ''age '' @ str_nat (page p) @ '': '' @ (page_text p @ r)"
  have e: "page_line p @ r = CHR ''P'' # X" by (simp add: page_line_def X_def)
  have "match_marker_space (''Page '' @ str_nat (page p) @ '': '' @ (page_text p @ r)) =
      Some (page_text p @ r)"
    by (rule match_marker_space_digits [OF str_nat_not_Nil str_nat_digits])
  then have m: "match_marker_space (CHR ''P'' # X) = Some (page_text p @ r)"
    by (simp add: X_def)
  show ?thesis unfolding e by (simp only: re_sub_marker.simps m option.case)
qed

lemma re_sub_marker_combined_text:
  "\<forall>p\<in>set all_text. \<not> contains_marker (page_text p) \<Longrightarrow>
     re_sub_marker (combined_text all_text) = join [CHR 0x0A, CHR 0x0A] (map page_text all_text)"
proof (induction all_text)
  case Nil
  show ?case by (simp add: combined_text_def)
next
  case (Cons p ps)
  from Cons.prems have f: "\<not> contains_marker (page_text p)" by simp
  show ?case
  proof (cases "ps = []")
    case True
    have "re_sub_marker (page_line p @ []) = re_sub_marker (page_text p @ [])"
      by (rule re_sub_marker_page_line)
    also have "\<dots> = page_text p" using re_sub_marker_free_append [OF f, of "[]"] by simp
    finally show ?thesis using True by (simp add: combined_text_def)
  next
    case False
    let ?rest = "[CHR 0x0A, CHR 0x0A] @ combined_text ps"
    have c: "combined_text (p # ps) = page_line p @ ?rest"
      using False by (simp add: combined_text_def join_Cons)
    have "re_sub_marker (page_line p @ ?rest) = re_sub_marker (page_text p @ ?rest)"
      by (rule re_sub_marker_page_line)
    also have "\<dots> = page_text p @ re_sub_marker ?rest"
      by (rule re_sub_marker_free_append [OF f]) simp
    also have "re_sub_marker ?rest = [CHR 0x0A, CHR 0x0A] @ re_sub_marker (combined_text ps)"
      by (simp only: append_Cons append_Nil re_sub_marker_newline)
    also have "re_sub_marker (combined_text ps) = join [CHR 0x0A, CHR 0x0A] (map page_text ps)"
      using Cons by simp
    finally show ?thesis using False by (simp add: c join_Cons)
  qed
qed

lemma strip_id:
  assumes "s \<noteq> []" and "\<not> isspace (hd s)" and "\<not> isspace (last s)"
  shows "strip s = s"
proof -
  from assms(1,2) have l: "lstrip s = s" by (cases s) (simp_all add: lstrip_def)
  from assms(1,3) have "dropWhile isspace (rev s) = rev s"
    by (cases "rev s") (auto simp: last_rev hd_rev)
  then have "rstrip s = s" by (simp add: rstrip_def)
  with l show ?thesis by (simp add: strip_def)
qed

lemma combined_text_hd:
  assumes "all_text \<noteq> []"
  shows "combined_text all_text \<noteq> []" and "hd (combined_text all_text) = CHR ''P''"
proof -
  from assms obtain p ps where a: "all_text = p # ps" by (cases all_text) auto
  obtain x where x: "page_line p = CHR ''P'' # x" by (simp add: page_line_def)
  from a x show "combined_text all_text \<noteq> []" "hd (combined_text all_text) = CHR ''P''"
    by (simp_all add: combined_text_def join_Cons)
qed

lemma combined_text_last:
  "all_text \<noteq> [] \<Longrightarrow> page_text (last all_text) \<noteq> [] \<Longrightarrow>
     last (combined_text all_text) = last (page_text (last all_text))"
proof (induction all_text)
  case Nil
  then show ?case by simp
next
  case (Cons p ps)
  show ?case
  proof (cases "ps = []")
    case True
    with Cons.prems show ?thesis by (simp add: combined_text_def page_line_def)
  next
    case False
    have c: "combined_text (p # ps) = page_line p @ [CHR 0x0A, CHR 0x0A] @ combined_text ps"
      using False by (simp add: combined_text_def join_Cons)
    from combined_text_hd(1) [OF False] have "last (combined_text (p # ps)) = last (combined_text ps)"
      unfolding c by simp
    with Cons False show ?thesis by simp
  qed
qed

lemma combined_text_stripped:
  assumes "all_text \<noteq> []" and "page_text (last all_text) \<noteq> []"
    and "\<not> isspace (last (page_text (last all_text)))"
  shows "strip (combined_text all_text) = combined_text all_text"
proof (rule strip_id)
  show "combined_text all_text \<noteq> []" by (rule combined_text_hd(1) [OF assms(1)])
  show "\<not> isspace (hd (combined_text all_text))" by (simp add: combined_text_hd(2) [OF assms(1)])
  show "\<not> isspace (last (combined_text all_text))"
    using assms by (simp add: combined_text_last)
qed

lemma create_document_chunks_one_chunk:
  assumes ne: "all_text \<noteq> []"
    and short: "length (combined_text all_text) < cs"
    and free: "\<forall>p\<in>set all_text. \<not> contains_marker (page_text p)"
    and l: "page_text (last all_text) \<noteq> []" "\<not> isspace (last (page_text (last all_text)))"
    and run: "create_document_chunks all_text md cs co = Inr docs"
  shows "map page_content docs = [join [CHR 0x0A, CHR 0x0A] (map page_text all_text)]"
proof -
  have s: "strip (combined_text all_text) = combined_text all_text"
    using ne l by (rule combined_text_stripped)
  have n: "combined_text all_text \<noteq> []" by (rule combined_text_hd(1) [OF ne])
  have "split_text cs co (combined_text all_text) = [combined_text all_text]"
    using split_text_short [OF short, of co] s n by simp
  with create_document_chunks_Inr(3) [OF run]
  have "make_documents md 0 [combined_text all_text] = Inr docs" by simp
  from make_documents_content [OF this]
  have "map page_content docs = [re_sub_marker (combined_text all_text)]" by simp
  with re_sub_marker_combined_text [OF free] show ?thesis by simp
qed

section \<open>An extension that is not supported\<close>

lemma splitext_notes_txt: "snd (splitext (lower ''Notes.TXT'')) = ''.txt''"
  by code_simp

lemma unsupported_no_parser:
  assumes "snd (splitext (lower filename)) \<notin> {''.pdf'', ''.docx'', ''.doc''}"
  shows "opened (snd (process_document_from_bytes threshold lib w doc_bytes filename size_arg overlap_arg)) =
           opened w"
proof (cases "NamedTemporaryFile lib (snd (splitext (lower filename)))")
  case (Inl e)
  then show ?thesis by (simp add: process_document_from_bytes_no_scratch)
next
  case (Inr tp)
  with assms show ?thesis
    by (simp add: process_document_from_bytes_dispatch [OF Inr] dispatch_def Let_def)
qed

lemma unsupported_with_scratch:
  assumes "snd (splitext (lower filename)) \<notin> {''.pdf'', ''.docx'', ''.doc''}"
    and "NamedTemporaryFile lib (snd (splitext (lower filename))) = Inr tp"
  shows "fst (process_document_from_bytes threshold lib w doc_bytes filename size_arg overlap_arg) =
           Inl (ValueError (''Unsupported document type: '' @ snd (splitext (lower filename))))"
  using assms(1) by (simp add: process_document_from_bytes_dispatch [OF assms(2)] dispatch_def Let_def)

text \<open>
  Claim C6 fails as stated.  The scratch file is created, with the extension as the
  suffix of its name, before the extension is looked at.  For the file name
  \<open>a.b\<close>, NUL, \<open>c\<close> the error is the \<open>ValueError\<close> "embedded null byte" of
  \<open>os.open\<close>, and for an extension of 301 characters it is the \<open>OSError\<close> of a file name
  that is too long; neither is the "unsupported document type" error.
\<close>

theorem scratch_file_error_comes_first:
  "snd (splitext (lower nul_name)) = ''.b'' @ [CHR 0x00] @ ''c'' \<and>
   fst (process_document_from_bytes 3000 sample_parsers empty_world ''%PDF'' nul_name None None) =
     Inl (ValueError ''embedded null byte'') \<and>
   snd (splitext (lower long_name)) = ''.'' @ replicate 300 (CHR ''a'') \<and>
   fst (process_document_from_bytes 3000 sample_parsers empty_world ''%PDF'' long_name None None) =
     Inl (OSError ''File name too long'')"
  by code_simp

text \<open>
  Claim C6, amended.  When the extension of the lower-cased file name is none of
  \<open>.pdf\<close>, \<open>.docx\<close>, \<open>.doc\<close>, no path is handed to a parser, and
  \<open>process_document_from_bytes\<close> raises the "unsupported document type" error provided
  the scratch file can be created: the extension has no NUL character and, with the eleven
  characters before it, no more than 255 bytes.  Otherwise the error of creating the
  scratch file is raised.
\<close>

theorem unsupported_extension_raises_after_scratch_file:
  assumes "snd (splitext (lower filename)) \<notin> {''.pdf'', ''.docx'', ''.doc''}"
  shows "(CHR 0x00 \<notin> set (snd (splitext (lower filename))) \<and>
          11 + fsencode_length (snd (splitext (lower filename))) \<le> 255 \<longrightarrow>
            fst (process_document_from_bytes threshold lib w doc_bytes filename size_arg overlap_arg) =
              Inl (ValueError (''Unsupported document type: '' @ snd (splitext (lower filename))))) \<and>
         (CHR 0x00 \<in> set (snd (splitext (lower filename))) \<longrightarrow>
            fst (process_document_from_bytes threshold lib w doc_bytes filename size_arg overlap_arg) =
              Inl (ValueError ''embedded null byte'')) \<and>
         (CHR 0x00 \<notin> set (snd (splitext (lower filename))) \<and>
          255 < 11 + fsencode_length (snd (splitext (lower filename))) \<longrightarrow>
            fst (process_document_from_bytes threshold lib w doc_bytes filename size_arg overlap_arg) =
              Inl (OSError ''File name too long'')) \<and>
         opened (snd (process_document_from_bytes threshold lib w doc_bytes filename size_arg overlap_arg)) =
           opened w"
proof (intro conjI impI)
  let ?ext = "snd (splitext (lower filename))"
  assume "CHR 0x00 \<notin> set ?ext \<and> 11 + fsencode_length ?ext \<le> 255"
  then have "NamedTemporaryFile lib ?ext = Inr (temp_stem lib @ ?ext)"
    by (simp add: NamedTemporaryFile_def)
  with assms show "fst (process_document_from_bytes threshold lib w doc_bytes filename size_arg overlap_arg) =
      Inl (ValueError (''Unsupported document type: '' @ ?ext))"
    by (rule unsupported_with_scratch)
next
  let ?ext = "snd (splitext (lower filename))"
  assume "CHR 0x00 \<in> set ?ext"
  then have "NamedTemporaryFile lib ?ext = Inl (ValueError ''embedded null byte'')"
    by (simp add: NamedTemporaryFile_def)
  then show "fst (process_document_from_bytes threshold lib w doc_bytes filename size_arg overlap_arg) =
      Inl (ValueError ''embedded null byte'')"
    by (simp add: process_document_from_bytes_no_scratch)
next
  let ?ext = "snd (splitext (lower filename))"
  assume "CHR 0x00 \<notin> set ?ext \<and> 255 < 11 + fsencode_length ?ext"
  then have "NamedTemporaryFile lib ?ext = Inl (OSError ''File name too long'')"
    by (simp add: NamedTemporaryFile_def)
  then show "fst (process_document_from_bytes threshold lib w doc_bytes filename size_arg overlap_arg) =
      Inl (OSError ''File name too long'')"
    by (simp add: process_document_from_bytes_no_scratch)
next
  from assms
  show "opened (snd (process_document_from_bytes threshold lib w doc_bytes filename size_arg overlap_arg)) =
      opened w"
    by (rule unsupported_no_parser)
qed

lemma nul_name_ext:
  "snd (splitext (lower nul_name)) = ''.b'' @ [CHR 0x00] @ ''c''"
  "snd (splitext (lower long_name)) = ''.'' @ replicate 300 (CHR ''a'')"
  "fsencode_length (''.'' @ replicate 300 (CHR ''a'')) = 301"
  by code_simp+

theorem unsupported_extension_raises_after_scratch_file_witness:
  "snd (splitext (lower ''Notes.TXT'')) = ''.txt'' \<and>
   fsencode_length ''.txt'' = 4 \<and>
   fst (process_document_from_bytes 3000 sample_parsers empty_world ''%PDF'' ''Notes.TXT'' None None) =
     Inl (ValueError ''Unsupported document type: .txt'') \<and>
   opened (snd (process_document_from_bytes 3000 sample_parsers empty_world ''%PDF'' ''Notes.TXT'' None None)) = [] \<and>
   snd (splitext (lower nul_name)) = ''.b'' @ [CHR 0x00] @ ''c'' \<and>
   fst (process_document_from_bytes 3000 sample_parsers empty_world ''%PDF'' nul_name None None) =
     Inl (ValueError ''embedded null byte'') \<and>
   snd (splitext (lower long_name)) = ''.'' @ replicate 300 (CHR ''a'') \<and>
   fsencode_length (''.'' @ replicate 300 (CHR ''a'')) = 301 \<and>
   fst (process_document_from_bytes 3000 sample_parsers empty_world ''%PDF'' long_name None None) =
     Inl (OSError ''File name too long'')"
proof -
  have e: "snd (splitext (lower ''Notes.TXT'')) \<notin> {''.pdf'', ''.docx'', ''.doc''}"
    by (simp add: splitext_notes_txt)
  have l: "fsencode_length ''.txt'' = 4" by code_simp
  have n: "snd (splitext (lower nul_name)) \<notin> {''.pdf'', ''.docx'', ''.doc''}"
    by (simp add: nul_name_ext)
  have g: "snd (splitext (lower long_name)) \<notin> {''.pdf'', ''.docx'', ''.doc''}"
    by code_simp
  have h: "CHR 0x00 \<notin> set (snd (splitext (lower long_name))) \<and>
           255 < 11 + fsencode_length (snd (splitext (lower long_name)))"
    by code_simp
  have 1: "fst (process_document_from_bytes 3000 sample_parsers empty_world ''%PDF'' ''Notes.TXT'' None None) =
     Inl (ValueError ''Unsupported document type: .txt'') \<and>
   opened (snd (process_document_from_bytes 3000 sample_parsers empty_world ''%PDF'' ''Notes.TXT'' None None)) = []"
    using unsupported_extension_raises_after_scratch_file
            [OF e, of 3000 sample_parsers empty_world "''%PDF''" None None] l
    by (simp add: splitext_notes_txt empty_world_def)
  have 2: "fst (process_document_from_bytes 3000 sample_parsers empty_world ''%PDF'' nul_name None None) =
     Inl (ValueError ''embedded null byte'')"
    using unsupported_extension_raises_after_scratch_file
            [OF n, of 3000 sample_parsers empty_world "''%PDF''" None None]
    by (simp add: nul_name_ext)
  have 3: "fst (process_document_from_bytes 3000 sample_parsers empty_world ''%PDF'' long_name None None) =
     Inl (OSError ''File name too long'')"
    using unsupported_extension_raises_after_scratch_file
            [OF g, of 3000 sample_parsers empty_world "''%PDF''" None None] h
    by blast
  from 1 2 3 l show ?thesis by (simp only: splitext_notes_txt nul_name_ext simp_thms)
qed

section \<open>The groups of paragraphs of the synthetic pages\<close>
















section \<open>The synthetic pages of a DOCX of 2500 characters\<close>









section \<open>Windows that cover a list\<close>

lemma coversI:
  assumes "suffix ov prev" and "covers (ov @ new) ws rest"
  shows "covers prev ((ov @ new) # ws) (new @ rest)"
proof -
  have "length ov \<in> set [0..<Suc (length (ov @ new))]" by simp
  moreover have "suffix (take (length ov) (ov @ new)) prev \<and>
      prefix (drop (length ov) (ov @ new)) (new @ rest) \<and>
      covers (ov @ new) ws (drop (length (ov @ new) - length ov) (new @ rest))"
    using assms by simp
  ultimately show ?thesis unfolding covers.simps list_ex_iff by blast
qed

lemma coversE:
  assumes "covers prev (w # ws) xs"
  obtains ov new rest where "w = ov @ new" and "suffix ov prev" and "xs = new @ rest"
    and "covers w ws rest"
proof -
  from assms have "\<exists>k\<in>set [0..<Suc (length w)]. suffix (take k w) prev \<and> prefix (drop k w) xs \<and>
      covers w ws (drop (length w - k) xs)"
    by (simp only: covers.simps list_ex_iff)
  then obtain k where m: "k \<in> set [0..<Suc (length w)]" and k': "suffix (take k w) prev"
      "prefix (drop k w) xs" "covers w ws (drop (length w - k) xs)"
    by blast
  from m have "k \<le> length w" by auto
  note k = this k'
  from k(3) obtain rest where r: "xs = drop k w @ rest" by (auto simp: prefix_def)
  with k(1) have "drop (length w - k) xs = rest" by simp
  with k r that [of "take k w" "drop k w" rest] show ?thesis by simp
qed

declare covers.simps(2) [simp del]



lemma suffix_concat_map: "suffix a b \<Longrightarrow> suffix (concat (map f a)) (concat (map f b))"
  by (auto simp: suffix_def)

lemma covers_concat_map:
  "covers p ws xs \<Longrightarrow>
     covers (concat (map f p)) (map (\<lambda>w. concat (map f w)) ws) (concat (map f xs))"
proof (induction ws arbitrary: p xs)
  case Nil
  then show ?case by simp
next
  case (Cons w ws)
  from Cons.prems obtain ov new r where
    c: "w = ov @ new" "suffix ov p" "xs = new @ r" "covers w ws r"
    by (rule coversE)
  let ?F = "\<lambda>l. concat (map f l)"
  from Cons.IH [OF c(4)] have "covers (?F ov @ ?F new) (map ?F ws) (?F r)" by (simp add: c(1))
  with suffix_concat_map [OF c(2), of f]
  have "covers (?F p) ((?F ov @ ?F new) # map ?F ws) (?F new @ ?F r)" by (rule coversI)
  then show ?case by (simp add: c)
qed


lemma covers_filter:
  "covers p ws xs \<Longrightarrow> covers (filter P p) (map (filter P) ws) (filter P xs)"
proof -
  assume "covers p ws xs"
  have "concat (map (\<lambda>x. if P x then [x] else []) l) = filter P l" for l
    by (induction l) simp_all
  with covers_concat_map [OF \<open>covers p ws xs\<close>, of "\<lambda>x. if P x then [x] else []"]
  show ?thesis by simp
qed




section \<open>The windows of the merged pieces\<close>



section \<open>The chunks of the splitter cover the text\<close>

lemma without_space_append [simp]: "without_space (a @ b) = without_space a @ without_space b"
  by (simp add: without_space_def)












section \<open>Chunks of whole pages\<close>







section \<open>The chunk texts and the source text\<close>









end
